theory Spec2Isabelle
  imports Main "HOL-Library.Word" "HOL-Library.FSet"
begin

section \<open>Protocol features\<close>

text \<open>
  A shallow embedding of \<^verbatim>\<open>libraries/chain/protocol_feature_manager.cpp\<close>.
  \<^verbatim>\<open>digest_type\<close> is a 256-bit hash, \<^verbatim>\<open>builtin_protocol_feature_t\<close> an
  \<^verbatim>\<open>enum class : uint32_t\<close> (any 32-bit value can be cast into it, which is why the
  source checks codes against the table), block numbers are \<^verbatim>\<open>uint32_t\<close>. Indices
  of type \<^verbatim>\<open>size_t\<close> are natural numbers: the source only compares and copies them, and
  increments them below the largest value, so nothing wraps.
\<close>

type_synonym digest_type = "256 word"
type_synonym builtin_protocol_feature_t = "32 word"
type_synonym time_point = int

text \<open>Modelled from the spec: the enumeration \<^verbatim>\<open>builtin_protocol_feature_t\<close> is declared
  in the header, which is not among the sources; its two codes are numbered in the order of
  the table below.\<close>

definition preactivate_feature :: builtin_protocol_feature_t where
  "preactivate_feature = 0"

definition only_link_to_existing_permission :: builtin_protocol_feature_t where
  "only_link_to_existing_permission = 1"

record protocol_feature_subjective_restrictions =
  r_earliest_allowed_activation_time :: time_point
  r_preactivation_required :: bool
  r_enabled :: bool

record builtin_protocol_feature_spec =
  codename :: string
  s_description_digest :: digest_type
  builtin_dependencies :: "builtin_protocol_feature_t fset"
  s_subjective_restrictions :: protocol_feature_subjective_restrictions

text \<open>
  The table \<^verbatim>\<open>builtin_protocol_feature_codenames\<close> (lines 17-44). The second entry leaves
  its restrictions to the member initialiser of \<^verbatim>\<open>builtin_protocol_feature_spec\<close>, which
  the header declares; nothing below reads them.
\<close>

definition builtin_protocol_feature_codenames ::
  "builtin_protocol_feature_t \<rightharpoonup> builtin_protocol_feature_spec" where
  "builtin_protocol_feature_codenames =
     [ preactivate_feature \<mapsto>
         \<lparr> codename = ''PREACTIVATE_FEATURE'',
           s_description_digest = 0x64fe7df32e9b86be2b296b3f81dfd527f84e82b98e363bc97e40bc7a83733310,
           builtin_dependencies = {||},
           s_subjective_restrictions =
             \<lparr> r_earliest_allowed_activation_time = 0, r_preactivation_required = False,
               r_enabled = True \<rparr> \<rparr>,
       only_link_to_existing_permission \<mapsto>
         \<lparr> codename = ''ONLY_LINK_TO_EXISTING_PERMISSION'',
           s_description_digest = 0xf3c3d91c4603cde2397268bfed4e662465293aab10cd9416db0d442b8cec2949,
           builtin_dependencies = {||},
           s_subjective_restrictions =
             \<lparr> r_earliest_allowed_activation_time = 0, r_preactivation_required = True,
               r_enabled = True \<rparr> \<rparr> ]"

text \<open>\<^verbatim>\<open>builtin_protocol_feature\<close>: what the caller hands to \<^verbatim>\<open>add_feature\<close>. The
  flat set of dependency digests is the list of its elements in iteration order.\<close>

record builtin_protocol_feature =
  f_codename :: builtin_protocol_feature_t
  f_description_digest :: digest_type
  f_dependencies :: "digest_type list"
  f_subjective_restrictions :: protocol_feature_subjective_restrictions

text \<open>\<^verbatim>\<open>protocol_feature\<close>: a catalog entry.\<close>

record protocol_feature =
  feature_digest :: digest_type
  description_digest :: digest_type
  dependencies :: "digest_type list"
  earliest_allowed_activation_time :: time_point
  preactivation_required :: bool
  enabled :: bool
  builtin_feature :: "builtin_protocol_feature_t option"

text \<open>
  Every \<^verbatim>\<open>EOS_ASSERT\<close> and \<^verbatim>\<open>EOS_THROW\<close> of the file is one constructor,
  named after its message. The last two are not exceptions: they mark a read through a
  null pointer and a vector read out of range, which C++ leaves undefined.
\<close>

datatype error =
    unsupported_builtin_codename
  | builtin_already_added
  | dependency_not_recognized digest_type
  | unexpected_error
  | builtin_dependencies_not_satisfied "string list"
  | duplicate_feature_digest
  | initialized_twice
  | not_yet_initialized
  | unrecognized_feature_digest
  | non_monotonic_activation
  | non_builtin_feature
  | unsupported_builtin_index
  | already_activated
  | singular_iterator
  | end_iterator
  | decrement_end_of_empty
  | decrement_at_beginning
  | null_pointer_dereference
  | vector_index_out_of_range

section \<open>The activation log\<close>

text \<open>
  \<^verbatim>\<open>protocol_feature_set\<close>: the container keyed by feature digest is a map, and the
  side vector of iterators holds the key of the entry (or nothing for the end iterator).
\<close>

record protocol_feature_set =
  recognized_protocol_features :: "digest_type \<rightharpoonup> protocol_feature"
  recognized_builtin_protocol_features :: "digest_type option list"

text \<open>
  A log entry holds an iterator into the catalog, which is never changed once the
  manager owns it: the entry carries the catalog record the iterator points to.
\<close>

record protocol_feature_entry =
  iterator_to_protocol_feature :: protocol_feature
  activation_block_num :: "32 word"

record builtin_protocol_feature_entry =
  previous :: nat
  builtin_activation_block_num :: "32 word"

text \<open>
  Modelled from the spec: the sentinel \<^verbatim>\<open>builtin_protocol_feature_entry::not_active\<close>
  (the spec's \<open>NOT_ACTIVE\<close>) is declared in the header
  \<^verbatim>\<open>protocol_feature_manager.hpp\<close>, which is not among the sources. The spec names it
  without a value; it is taken to be the largest \<^verbatim>\<open>uint32_t\<close>, the only value for which
  the unguarded comparison of \<^verbatim>\<open>is_builtin_activated\<close> treats an inactive slot as
  inactive at every other block number.
\<close>

definition not_active :: "32 word" where
  "not_active = 0xFFFFFFFF"

text \<open>
  Modelled from the spec: the sentinel \<^verbatim>\<open>builtin_protocol_feature_entry::no_previous\<close>
  (the spec's \<open>NO_PREVIOUS\<close>, declared in the header), taken to be the largest
  \<^verbatim>\<open>size_t\<close>; the index of a builtin is a \<^verbatim>\<open>uint32_t\<close> and never equals it.
\<close>

definition no_previous :: nat where
  "no_previous = 18446744073709551615"

text \<open>
  Modelled from the spec: \<^verbatim>\<open>const_iterator::end_index\<close> (the spec's reserved sentinel
  index of \<open>end()\<close>, declared in the header), taken to be the largest \<^verbatim>\<open>size_t\<close>.
\<close>

definition end_index :: nat where
  "end_index = 18446744073709551615"

text \<open>Modelled from the spec: the member initialisers of a slot (header), both sentinels.\<close>

definition default_builtin_entry :: builtin_protocol_feature_entry where
  "default_builtin_entry = \<lparr> previous = no_previous, builtin_activation_block_num = not_active \<rparr>"

record protocol_feature_manager =
  pfm_protocol_feature_set :: protocol_feature_set
  activated_protocol_features :: "protocol_feature_entry list"
  builtin_protocol_features :: "builtin_protocol_feature_entry list"
  head_of_builtin_activation_list :: nat
  initialized :: bool

text \<open>The constructor (lines 350-354): the slot vector is resized to the catalog's side
  vector, each new slot holding both sentinels; the log is empty, and the head and the flag
  start at their member initialisers (header): no previous slot, not initialized.\<close>

definition new_protocol_feature_manager :: "protocol_feature_set \<Rightarrow> protocol_feature_manager" where
  "new_protocol_feature_manager s =
     \<lparr> pfm_protocol_feature_set = s,
       activated_protocol_features = [],
       builtin_protocol_features =
         replicate (length (recognized_builtin_protocol_features s)) default_builtin_entry,
       head_of_builtin_activation_list = no_previous,
       initialized = False \<rparr>"

text \<open>Modelled from the spec: \<^verbatim>\<open>is_initialized\<close> is defined in the header; it reads the
  one-shot flag.\<close>

definition is_initialized :: "protocol_feature_manager \<Rightarrow> bool" where
  "is_initialized m = initialized m"

text \<open>\<^verbatim>\<open>is_builtin_activated\<close> (lines 479-487).\<close>

definition is_builtin_activated ::
  "protocol_feature_manager \<Rightarrow> builtin_protocol_feature_t \<Rightarrow> 32 word \<Rightarrow> bool" where
  "is_builtin_activated m feature_codename current_block_num =
     (let indx = unat feature_codename in
      if indx \<ge> length (builtin_protocol_features m) then False
      else builtin_activation_block_num (builtin_protocol_features m ! indx) \<le> current_block_num)"

text \<open>
  \<^verbatim>\<open>activate_feature\<close> (lines 489-535). A member function that can throw returns the
  exception, if any, together with the manager as the call leaves it.
\<close>

definition activate_feature ::
  "protocol_feature_manager \<Rightarrow> digest_type \<Rightarrow> 32 word \<Rightarrow> error option \<times> protocol_feature_manager" where
  "activate_feature m digest current_block_num =
     (if \<not> is_initialized m then (Some not_yet_initialized, m)
      else case recognized_protocol_features (pfm_protocol_feature_set m) digest of
        None \<Rightarrow> (Some unrecognized_feature_digest, m)
      | Some itr \<Rightarrow>
         (if length (activated_protocol_features m) > 0
             \<and> \<not> activation_block_num (last (activated_protocol_features m)) \<le> current_block_num
          then (Some non_monotonic_activation, m)
          else (case builtin_feature itr of
            None \<Rightarrow> (Some non_builtin_feature, m)
          | Some c \<Rightarrow>
             (let indx = unat c in
              if \<not> indx < length (builtin_protocol_features m)
              then (Some unsupported_builtin_index, m)
              else if builtin_activation_block_num (builtin_protocol_features m ! indx) \<noteq> not_active
              then (Some already_activated, m)
              else (None,
                m \<lparr> activated_protocol_features :=
                      activated_protocol_features m @
                        [\<lparr> iterator_to_protocol_feature = itr,
                           activation_block_num = current_block_num \<rparr>],
                    builtin_protocol_features :=
                      list_update (builtin_protocol_features m) indx
                        \<lparr> previous = head_of_builtin_activation_list m,
                          builtin_activation_block_num = current_block_num \<rparr>,
                    head_of_builtin_activation_list := indx \<rparr>)))))"

text \<open>
  \<^verbatim>\<open>init\<close> (lines 356-368). The journal is the vector
  \<^verbatim>\<open>activated_protocol_features\<close> of the database's protocol state object. The
  scoped exit clears the flag on every exit that follows its construction, unless cancelled.
\<close>

fun replay ::
  "protocol_feature_manager \<Rightarrow> (digest_type \<times> 32 word) list \<Rightarrow> error option \<times> protocol_feature_manager" where
  "replay m [] = (None, m)"
| "replay m ((d, n) # fs) =
     (case activate_feature m d n of
        (Some e, m') \<Rightarrow> (Some e, m')
      | (None, m') \<Rightarrow> replay m' fs)"

definition init ::
  "protocol_feature_manager \<Rightarrow> (digest_type \<times> 32 word) list \<Rightarrow> error option \<times> protocol_feature_manager" where
  "init m journal =
     (if is_initialized m then (Some initialized_twice, m)
      else case replay (m \<lparr> initialized := True \<rparr>) journal of
        (Some e, m') \<Rightarrow> (Some e, m' \<lparr> initialized := False \<rparr>)
      | (None, m') \<Rightarrow> (None, m'))"

text \<open>
  \<^verbatim>\<open>popped_blocks_to\<close> (lines 537-554), first loop: walk the stack from the head and
  reset every slot activated after \<open>block_num\<close>. The head is an index into the slot
  vector; a head outside the vector is a read out of range.
\<close>

function pop_builtin_stack ::
  "32 word \<Rightarrow> builtin_protocol_feature_entry list \<Rightarrow> nat \<Rightarrow>
     error + (builtin_protocol_feature_entry list \<times> nat)" where
  "pop_builtin_stack block_num bs head =
     (if head \<noteq> no_previous then
        if head < length bs then
          let e = bs ! head in
          if builtin_activation_block_num e \<le> block_num then Inr (bs, head)
          else pop_builtin_stack block_num
                 (list_update bs head
                    \<lparr> previous = no_previous, builtin_activation_block_num = not_active \<rparr>)
                 (previous e)
        else Inl vector_index_out_of_range
      else Inr (bs, head))"
  by pat_completeness auto

lemma length_filter_update:
  "i < length xs \<Longrightarrow> \<not> P v \<Longrightarrow>
   length (filter P (xs [i := v])) + (if P (xs ! i) then 1 else 0) = length (filter P xs)"
proof (induction xs arbitrary: i)
  case Nil
  then show ?case by simp
next
  case (Cons x xs)
  then show ?case by (cases i) auto
qed

termination pop_builtin_stack
proof (relation "measure (\<lambda>(block_num, bs, head).
          2 * length (filter (\<lambda>e. previous e \<noteq> no_previous) bs)
          + (if head = no_previous then 0 else 1))", goal_cases)
  case 1
  show ?case by simp
next
  case (2 block_num bs head e)
  let ?P = "\<lambda>e. previous e \<noteq> no_previous"
  let ?v = "\<lparr> previous = no_previous, builtin_activation_block_num = not_active \<rparr>"
  from 2 have lt: "head < length bs" and hd: "head \<noteq> no_previous" and e: "e = bs ! head"
    by simp_all
  have upd: "length (filter ?P (bs [head := ?v])) + (if ?P (bs ! head) then 1 else 0)
      = length (filter ?P bs)"
    using lt by (rule length_filter_update) simp
  show ?case
  proof (cases "?P (bs ! head)")
    case True
    with upd hd e show ?thesis by simp
  next
    case False
    with upd hd e show ?thesis by simp
  qed
qed

declare pop_builtin_stack.simps [simp del]

text \<open>Second loop: drop entries from the back while the last one was activated after
  \<open>block_num\<close>.\<close>

function pop_back_while :: "32 word \<Rightarrow> protocol_feature_entry list \<Rightarrow> protocol_feature_entry list" where
  "pop_back_while block_num es =
     (if length es > 0 \<and> block_num < activation_block_num (last es)
      then pop_back_while block_num (butlast es)
      else es)"
  by pat_completeness auto
termination
  by (relation "measure (\<lambda>(block_num, es). length es)") auto

declare pop_back_while.simps [simp del]

definition popped_blocks_to ::
  "protocol_feature_manager \<Rightarrow> 32 word \<Rightarrow> error option \<times> protocol_feature_manager" where
  "popped_blocks_to m block_num =
     (if \<not> is_initialized m then (Some not_yet_initialized, m)
      else case pop_builtin_stack block_num (builtin_protocol_features m)
                  (head_of_builtin_activation_list m) of
        Inl e \<Rightarrow> (Some e, m)
      | Inr (bs, head) \<Rightarrow>
          (None, m \<lparr> activated_protocol_features :=
                        pop_back_while block_num (activated_protocol_features m),
                      builtin_protocol_features := bs,
                      head_of_builtin_activation_list := head \<rparr>))"

section \<open>The traversal interface\<close>

text \<open>
  \<^verbatim>\<open>const_iterator\<close>: a pointer \<^verbatim>\<open>_pfm\<close> to the manager and an index
  \<^verbatim>\<open>_index\<close>. The pointer is null or points to a manager, which the cursor only reads:
  it is modelled by the manager it points to, if any.
\<close>

record const_iterator =
  it_pfm :: "protocol_feature_manager option"
  it_index :: nat

text \<open>Modelled from the spec: a default-constructed cursor, the spec's singular
  (uninitialized) cursor; the member initialisers (a null pointer and index 0) are in the
  header.\<close>

definition singular :: const_iterator where
  "singular = \<lparr> it_pfm = None, it_index = 0 \<rparr>"

text \<open>Modelled from the spec: \<^verbatim>\<open>cend\<close> is defined in the header; the spec's \<open>end()\<close>
  is the cursor at the reserved sentinel index.\<close>

definition cend :: "protocol_feature_manager \<Rightarrow> const_iterator" where
  "cend m = \<lparr> it_pfm = Some m, it_index = end_index \<rparr>"

text \<open>\<^verbatim>\<open>get_pointer\<close> (lines 370-374), which the dereference operators of the header
  call: both assertions are commented out in the source, so the pointer and the index are
  used as they are.\<close>

definition get_pointer :: "const_iterator \<Rightarrow> error + protocol_feature" where
  "get_pointer it =
     (case it_pfm it of
        None \<Rightarrow> Inl null_pointer_dereference
      | Some m \<Rightarrow>
          if it_index it < length (activated_protocol_features m)
          then Inr (iterator_to_protocol_feature (activated_protocol_features m ! it_index it))
          else Inl vector_index_out_of_range)"

text \<open>\<^verbatim>\<open>activation_ordinal\<close> (lines 376-387); the index is returned as a \<^verbatim>\<open>uint32_t\<close>.\<close>

definition activation_ordinal :: "const_iterator \<Rightarrow> error + 32 word" where
  "activation_ordinal it =
     (if it_pfm it = None then Inl singular_iterator
      else if \<not> it_index it \<noteq> end_index then Inl end_iterator
      else Inr (of_nat (it_index it)))"

text \<open>\<^verbatim>\<open>const_iterator::activation_block_num\<close> (lines 389-400).\<close>

definition it_activation_block_num :: "const_iterator \<Rightarrow> error + 32 word" where
  "it_activation_block_num it =
     (case it_pfm it of
        None \<Rightarrow> Inl singular_iterator
      | Some m \<Rightarrow>
          if \<not> it_index it \<noteq> end_index then Inl end_iterator
          else if it_index it < length (activated_protocol_features m)
          then Inr (activation_block_num (activated_protocol_features m ! it_index it))
          else Inl vector_index_out_of_range)"

text \<open>\<^verbatim>\<open>operator++\<close> (lines 402-412) and \<^verbatim>\<open>operator--\<close> (lines 414-430).\<close>

definition increment :: "const_iterator \<Rightarrow> error + const_iterator" where
  "increment it =
     (case it_pfm it of
        None \<Rightarrow> Inl singular_iterator
      | Some m \<Rightarrow>
          if \<not> it_index it \<noteq> end_index then Inl end_iterator
          else let i = it_index it + 1 in
               Inr (it \<lparr> it_index :=
                      (if i \<ge> length (activated_protocol_features m) then end_index else i) \<rparr>))"

definition decrement :: "const_iterator \<Rightarrow> error + const_iterator" where
  "decrement it =
     (case it_pfm it of
        None \<Rightarrow> Inl singular_iterator
      | Some m \<Rightarrow>
          if it_index it = end_index then
            if \<not> length (activated_protocol_features m) > 0 then Inl decrement_end_of_empty
            else Inr (it \<lparr> it_index := length (activated_protocol_features m) - 1 \<rparr>)
          else
            if \<not> it_index it > 0 then Inl decrement_at_beginning
            else Inr (it \<lparr> it_index := it_index it - 1 \<rparr>))"

text \<open>\<^verbatim>\<open>cbegin\<close> (lines 432-438) and \<^verbatim>\<open>at_activation_ordinal\<close> (lines 440-447).\<close>

definition cbegin :: "protocol_feature_manager \<Rightarrow> const_iterator" where
  "cbegin m =
     (if length (activated_protocol_features m) = 0 then cend m
      else \<lparr> it_pfm = Some m, it_index = 0 \<rparr>)"

definition at_activation_ordinal :: "protocol_feature_manager \<Rightarrow> 32 word \<Rightarrow> const_iterator" where
  "at_activation_ordinal m ordinal =
     (if unat ordinal \<ge> length (activated_protocol_features m) then cend m
      else \<lparr> it_pfm = Some m, it_index = unat ordinal \<rparr>)"

text \<open>
  \<^verbatim>\<open>std::lower_bound\<close> and \<^verbatim>\<open>std::upper_bound\<close> are the standard library's binary
  searches over the range of length \<open>len\<close> that starts at \<open>first\<close>: halve the range,
  test the middle element, keep the half that holds the bound. The predicate \<open>before\<close>
  stands for the comparator applied to the searched value: for the lower bound it says
  that the element is below the value, for the upper bound that it is not above it.
\<close>

function std_bound :: "('a \<Rightarrow> bool) \<Rightarrow> 'a list \<Rightarrow> nat \<Rightarrow> nat \<Rightarrow> nat" where
  "std_bound before xs first len =
     (if len > 0 then
        let half = len div 2; middle = first + half in
        if before (xs ! middle)
        then std_bound before xs (middle + 1) (len - half - 1)
        else std_bound before xs first half
      else first)"
  by pat_completeness auto
termination
  by (relation "measure (\<lambda>(before, xs, first, len). len)") auto

declare std_bound.simps [simp del]

text \<open>\<^verbatim>\<open>lower_bound\<close> (lines 449-462) and \<^verbatim>\<open>upper_bound\<close> (lines 464-477).\<close>

definition lower_bound :: "protocol_feature_manager \<Rightarrow> 32 word \<Rightarrow> const_iterator" where
  "lower_bound m block_num =
     (let itr = std_bound (\<lambda>lhs. activation_block_num lhs < block_num)
                  (activated_protocol_features m) 0 (length (activated_protocol_features m)) in
      if itr = length (activated_protocol_features m) then cend m
      else \<lparr> it_pfm = Some m, it_index = itr \<rparr>)"

definition upper_bound :: "protocol_feature_manager \<Rightarrow> 32 word \<Rightarrow> const_iterator" where
  "upper_bound m block_num =
     (let itr = std_bound (\<lambda>rhs. \<not> block_num < activation_block_num rhs)
                  (activated_protocol_features m) 0 (length (activated_protocol_features m)) in
      if itr = length (activated_protocol_features m) then cend m
      else \<lparr> it_pfm = Some m, it_index = itr \<rparr>)"

section \<open>The catalog\<close>

text \<open>
  \<^verbatim>\<open>add_feature\<close> (lines 261-346). The table of compiled-in specs and the hash
  \<^verbatim>\<open>builtin_protocol_feature::digest\<close> (SHA-256 over the packed type, description
  digest, dependencies and codename) are parameters: what is proved holds for every
  table and every hash. Sets of builtin codes are finite sets, as flat sets are.

  The loop over the dependencies (lines 282-297) stops at the first digest the catalog
  does not hold, and collects the builtin codes among the expected ones.
\<close>

fun satisfied_dependencies ::
  "(digest_type \<rightharpoonup> protocol_feature) \<Rightarrow> builtin_protocol_feature_t fset \<Rightarrow> digest_type list \<Rightarrow>
     builtin_protocol_feature_t fset \<Rightarrow> error + builtin_protocol_feature_t fset" where
  "satisfied_dependencies recognized expected [] satisfied = Inr satisfied"
| "satisfied_dependencies recognized expected (d # ds) satisfied =
     (case recognized d of
        None \<Rightarrow> Inl (dependency_not_recognized d)
      | Some itr \<Rightarrow>
          satisfied_dependencies recognized expected ds
            (case builtin_feature itr of
               None \<Rightarrow> satisfied
             | Some c \<Rightarrow> if c |\<in>| expected then finsert c satisfied else satisfied))"

text \<open>The names of the missing builtins (lines 307-316), in the order of the flat set.\<close>

fun missing_builtins_with_names ::
  "(builtin_protocol_feature_t \<rightharpoonup> builtin_protocol_feature_spec) \<Rightarrow>
     builtin_protocol_feature_t list \<Rightarrow> error + string list" where
  "missing_builtins_with_names specs [] = Inr []"
| "missing_builtins_with_names specs (c # cs) =
     (case specs c of
        None \<Rightarrow> Inl unexpected_error
      | Some sp \<Rightarrow>
         (case missing_builtins_with_names specs cs of
            Inl e \<Rightarrow> Inl e
          | Inr names \<Rightarrow> Inr (codename sp # names)))"

definition add_feature ::
  "(builtin_protocol_feature_t \<rightharpoonup> builtin_protocol_feature_spec) \<Rightarrow>
   (builtin_protocol_feature \<Rightarrow> digest_type) \<Rightarrow>
   protocol_feature_set \<Rightarrow> builtin_protocol_feature \<Rightarrow>
     error + (protocol_feature \<times> protocol_feature_set)" where
  "add_feature specs digest s f =
     (case specs (f_codename f) of
        None \<Rightarrow> Inl unsupported_builtin_codename
      | Some builtin_spec \<Rightarrow>
         (let indx = unat (f_codename f);
              builtins = recognized_builtin_protocol_features s in
          if indx < length builtins \<and> builtins ! indx \<noteq> None then Inl builtin_already_added
          else
            let feature_digest = digest f;
                expected_builtin_dependencies = builtin_dependencies builtin_spec in
            (case satisfied_dependencies (recognized_protocol_features s)
                    expected_builtin_dependencies (f_dependencies f) {||} of
               Inl e \<Rightarrow> Inl e
             | Inr satisfied_builtin_dependencies \<Rightarrow>
                 if fcard expected_builtin_dependencies > fcard satisfied_builtin_dependencies
                 then (case missing_builtins_with_names specs
                              (sorted_list_of_fset
                                 (expected_builtin_dependencies |-| satisfied_builtin_dependencies)) of
                         Inl e \<Rightarrow> Inl e
                       | Inr names \<Rightarrow> Inl (builtin_dependencies_not_satisfied names))
                 else if recognized_protocol_features s feature_digest \<noteq> None
                 then Inl duplicate_feature_digest
                 else
                   let res = \<lparr> feature_digest = feature_digest,
                               description_digest = f_description_digest f,
                               dependencies = f_dependencies f,
                               earliest_allowed_activation_time =
                                 r_earliest_allowed_activation_time (f_subjective_restrictions f),
                               preactivation_required =
                                 r_preactivation_required (f_subjective_restrictions f),
                               enabled = r_enabled (f_subjective_restrictions f),
                               builtin_feature = Some (f_codename f) \<rparr>;
                       grown = (if indx \<ge> length builtins
                                then builtins @ replicate (indx + 1 - length builtins) None
                                else builtins)
                   in Inr (res,
                        \<lparr> recognized_protocol_features =
                            (recognized_protocol_features s)(feature_digest \<mapsto> res),
                          recognized_builtin_protocol_features =
                            list_update grown indx (Some feature_digest) \<rparr>))))"

text \<open>The empty catalog (lines 180-183).\<close>

definition empty_protocol_feature_set :: protocol_feature_set where
  "empty_protocol_feature_set =
     \<lparr> recognized_protocol_features = Map.empty, recognized_builtin_protocol_features = [] \<rparr>"

text \<open>The builtin codes that a list of dependency digests resolves to in a catalog.\<close>

definition resolved_builtins ::
  "protocol_feature_set \<Rightarrow> digest_type list \<Rightarrow> builtin_protocol_feature_t set" where
  "resolved_builtins s ds =
     set (concat (map (\<lambda>d. case recognized_protocol_features s d of
                              None \<Rightarrow> []
                            | Some itr \<Rightarrow> (case builtin_feature itr of None \<Rightarrow> [] | Some c \<Rightarrow> [c]))
                      ds))"

section \<open>Invariants of the activation log\<close>

text \<open>The builtin code of a log entry, and the index of its slot.\<close>

definition entry_code :: "protocol_feature_entry \<Rightarrow> builtin_protocol_feature_t option" where
  "entry_code e = builtin_feature (iterator_to_protocol_feature e)"

definition entry_index :: "protocol_feature_entry \<Rightarrow> nat option" where
  "entry_index e = map_option unat (entry_code e)"

text \<open>(I4) Activation block numbers do not decrease along the log.\<close>

definition activation_monotone :: "protocol_feature_manager \<Rightarrow> bool" where
  "activation_monotone m = sorted (map activation_block_num (activated_protocol_features m))"

text \<open>(I6) A slot is active exactly when the log holds an entry for its builtin.\<close>

definition slot_agrees :: "protocol_feature_manager \<Rightarrow> nat \<Rightarrow> bool" where
  "slot_agrees m i =
     ((builtin_activation_block_num (builtin_protocol_features m ! i) \<noteq> not_active)
        = (Some i \<in> set (map entry_index (activated_protocol_features m))))"

definition log_index_coherent :: "protocol_feature_manager \<Rightarrow> bool" where
  "log_index_coherent m = (\<forall>i < length (builtin_protocol_features m). slot_agrees m i)"

text \<open>
  (I7) The chain that starts at the head and follows \<open>previous\<close> visits the slots of
  the log's entries, newest first, each with the block number of its entry, and ends at
  the sentinel; no builtin is visited twice (I5).
\<close>

fun stack_chain ::
  "builtin_protocol_feature_entry list \<Rightarrow> nat \<Rightarrow> protocol_feature_entry list \<Rightarrow> bool" where
  "stack_chain bs head [] = (head = no_previous)"
| "stack_chain bs head (e # es) =
     (entry_index e = Some head \<and> head < length bs
      \<and> builtin_activation_block_num (bs ! head) = activation_block_num e
      \<and> stack_chain bs (previous (bs ! head)) es)"

definition lifo_stack_integrity :: "protocol_feature_manager \<Rightarrow> bool" where
  "lifo_stack_integrity m =
     (stack_chain (builtin_protocol_features m) (head_of_builtin_activation_list m)
        (rev (activated_protocol_features m))
      \<and> distinct (map entry_index (activated_protocol_features m)))"

definition log_invariants :: "protocol_feature_manager \<Rightarrow> bool" where
  "log_invariants m =
     (activation_monotone m \<and> log_index_coherent m \<and> lifo_stack_integrity m)"

text \<open>An inactive slot holds both sentinels, as a slot that was never activated or was
  popped does.\<close>

definition inactive_slots_reset :: "protocol_feature_manager \<Rightarrow> bool" where
  "inactive_slots_reset m =
     (\<forall>i < length (builtin_protocol_features m).
        builtin_activation_block_num (builtin_protocol_features m ! i) = not_active
          \<longrightarrow> previous (builtin_protocol_features m ! i) = no_previous)"

text \<open>A sequence of calls on a manager; a call that throws leaves the manager to the
  next call as the exception left it.\<close>

datatype call = Activate digest_type "32 word" | Popped "32 word"

fun run_call :: "protocol_feature_manager \<Rightarrow> call \<Rightarrow> protocol_feature_manager" where
  "run_call m (Activate d n) = snd (activate_feature m d n)"
| "run_call m (Popped n) = snd (popped_blocks_to m n)"

definition run_calls :: "protocol_feature_manager \<Rightarrow> call list \<Rightarrow> protocol_feature_manager" where
  "run_calls m cs = foldl run_call m cs"

text \<open>A call that activates a feature at block \<open>h\<close>.\<close>

fun activates_at :: "32 word \<Rightarrow> call \<Rightarrow> bool" where
  "activates_at h (Activate d n) = (n = h)"
| "activates_at h (Popped n) = False"

section \<open>A catalog of the two builtins\<close>

text \<open>The two builtins of the table with digests \<open>dA\<close> and \<open>dB\<close>, the catalog that
  holds both, and the manager built on it and initialised from an empty journal.\<close>

definition dA :: digest_type where
  "dA = 0xA"

definition dB :: digest_type where
  "dB = 0xB"

definition feature_A :: protocol_feature where
  "feature_A =
     \<lparr> feature_digest = dA,
       description_digest = 0x64fe7df32e9b86be2b296b3f81dfd527f84e82b98e363bc97e40bc7a83733310,
       dependencies = [], earliest_allowed_activation_time = 0,
       preactivation_required = False, enabled = True,
       builtin_feature = Some preactivate_feature \<rparr>"

definition feature_B :: protocol_feature where
  "feature_B =
     \<lparr> feature_digest = dB,
       description_digest = 0xf3c3d91c4603cde2397268bfed4e662465293aab10cd9416db0d442b8cec2949,
       dependencies = [], earliest_allowed_activation_time = 0,
       preactivation_required = True, enabled = True,
       builtin_feature = Some only_link_to_existing_permission \<rparr>"

definition catalog_AB :: protocol_feature_set where
  "catalog_AB =
     \<lparr> recognized_protocol_features = [dA \<mapsto> feature_A, dB \<mapsto> feature_B],
       recognized_builtin_protocol_features = [Some dA, Some dB] \<rparr>"

definition manager_AB :: protocol_feature_manager where
  "manager_AB = snd (init (new_protocol_feature_manager catalog_AB) [])"

text \<open>
  The catalog that holds \<open>A\<close> only, the builtin \<open>B\<close> as handed to
  \<^verbatim>\<open>add_feature\<close> with a given list of dependency digests, a hash that tells the two
  builtins apart, and a table in which \<open>B\<close> declares the builtin dependency \<open>A\<close>
  (scenarios 1 and 2 of the spec; the compiled-in table declares no dependency).
\<close>

definition catalog_A :: protocol_feature_set where
  "catalog_A =
     \<lparr> recognized_protocol_features = [dA \<mapsto> feature_A],
       recognized_builtin_protocol_features = [Some dA] \<rparr>"

definition builtin_B :: "digest_type list \<Rightarrow> builtin_protocol_feature" where
  "builtin_B deps =
     \<lparr> f_codename = only_link_to_existing_permission,
       f_description_digest = 0xf3c3d91c4603cde2397268bfed4e662465293aab10cd9416db0d442b8cec2949,
       f_dependencies = deps,
       f_subjective_restrictions =
         \<lparr> r_earliest_allowed_activation_time = 0, r_preactivation_required = True,
           r_enabled = True \<rparr> \<rparr>"

definition digest_AB :: "builtin_protocol_feature \<Rightarrow> digest_type" where
  "digest_AB f = (if f_codename f = preactivate_feature then dA else dB)"

definition codenames_B_needs_A ::
  "builtin_protocol_feature_t \<rightharpoonup> builtin_protocol_feature_spec" where
  "codenames_B_needs_A =
     builtin_protocol_feature_codenames
       (only_link_to_existing_permission \<mapsto>
          \<lparr> codename = ''ONLY_LINK_TO_EXISTING_PERMISSION'',
            s_description_digest = 0xf3c3d91c4603cde2397268bfed4e662465293aab10cd9416db0d442b8cec2949,
            builtin_dependencies = {|preactivate_feature|},
            s_subjective_restrictions =
              \<lparr> r_earliest_allowed_activation_time = 0, r_preactivation_required = True,
                r_enabled = True \<rparr> \<rparr>)"

text \<open>The log after activating \<open>A\<close> at block 100, and after activating \<open>B\<close> at
  block 150 as well.\<close>

definition manager_A :: protocol_feature_manager where
  "manager_A = run_calls manager_AB [Activate dA 100]"

definition manager_A_B :: protocol_feature_manager where
  "manager_A_B = run_calls manager_AB [Activate dA 100, Activate dB 150]"

text \<open>Four activations at the block number that equals the sentinel, rolled back to
  block 20.\<close>

definition manager_stale :: protocol_feature_manager where
  "manager_stale =
     run_calls manager_AB
       [Activate dB not_active, Activate dB not_active,
        Activate dA not_active, Activate dA not_active, Popped 20]"

text \<open>Two activations of \<open>B\<close> at the block number that equals the sentinel on top of
  \<open>A\<close> at block 10, rolled back to block 20 and then to block 5.\<close>

definition manager_orphaned :: protocol_feature_manager where
  "manager_orphaned =
     run_calls manager_AB
       [Activate dA 10, Activate dB not_active, Activate dB not_active, Popped 20, Popped 5]"


text \<open>A state that no call sequence is shown to reach: the log holds \<open>A\<close> at block 100
  while the slot of \<open>A\<close> holds block 150.\<close>

definition manager_incoherent :: protocol_feature_manager where
  "manager_incoherent =
     manager_A \<lparr> builtin_protocol_features :=
       [\<lparr> previous = no_previous, builtin_activation_block_num = 150 \<rparr>, default_builtin_entry] \<rparr>"

section \<open>Lemmas on the two loops of the rollback\<close>

lemma entry_index_bound: "entry_index e = Some i \<Longrightarrow> i \<noteq> no_previous"
proof -
  assume "entry_index e = Some i"
  then obtain c :: "32 word" where "i = unat c"
    by (auto simp: entry_index_def)
  moreover have "unat c < 2 ^ 32" using unsigned_less [of c] by simp
  ultimately show ?thesis by (simp add: no_previous_def)
qed

lemma stack_chain_update:
  "stack_chain bs head es \<Longrightarrow> Some i \<notin> set (map entry_index es) \<Longrightarrow>
   stack_chain (list_update bs i v) head es"
proof (induction es arbitrary: head)
  case Nil
  then show ?case by simp
next
  case (Cons e es)
  then have "head \<noteq> i" by auto
  with Cons show ?case by auto
qed

lemma stack_chain_slot:
  "stack_chain bs head es \<Longrightarrow> e \<in> set es \<Longrightarrow> entry_index e = Some i \<Longrightarrow>
   i < length bs \<and> builtin_activation_block_num (bs ! i) = activation_block_num e"
  by (induction es arbitrary: head) auto

lemma pop_builtin_stack_chain:
  assumes "stack_chain bs head es" and "distinct (map entry_index es)"
  shows "\<exists>bs' head'.
           pop_builtin_stack h bs head = Inr (bs', head')
           \<and> length bs' = length bs
           \<and> stack_chain bs' head' (dropWhile (\<lambda>e. h < activation_block_num e) es)
           \<and> (\<forall>i < length bs.
                 bs' ! i = (if Some i \<in> set (map entry_index (takeWhile (\<lambda>e. h < activation_block_num e) es))
                            then default_builtin_entry else bs ! i))"
  using assms
proof (induction es arbitrary: bs head)
  case Nil
  then show ?case by (subst pop_builtin_stack.simps) simp
next
  case (Cons e es)
  from Cons.prems have idx: "entry_index e = Some head" and lt: "head < length bs"
    and num: "builtin_activation_block_num (bs ! head) = activation_block_num e"
    and rest: "stack_chain bs (previous (bs ! head)) es"
    and fresh: "Some head \<notin> set (map entry_index es)"
    and dist: "distinct (map entry_index es)"
    by auto
  from idx have hd: "head \<noteq> no_previous" by (rule entry_index_bound)
  show ?case
  proof (cases "h < activation_block_num e")
    case True
    let ?bs = "list_update bs head default_builtin_entry"
    from rest fresh have "stack_chain ?bs (previous (bs ! head)) es"
      by (rule stack_chain_update)
    from Cons.IH [OF this dist] obtain bs' head' where
      run: "pop_builtin_stack h ?bs (previous (bs ! head)) = Inr (bs', head')"
      and len: "length bs' = length ?bs"
      and chain: "stack_chain bs' head' (dropWhile (\<lambda>e. h < activation_block_num e) es)"
      and slots: "\<forall>i < length ?bs.
          bs' ! i = (if Some i \<in> set (map entry_index (takeWhile (\<lambda>e. h < activation_block_num e) es))
                     then default_builtin_entry else ?bs ! i)"
      by blast
    from True have "\<not> activation_block_num e \<le> h" by simp
    then have "pop_builtin_stack h bs head = Inr (bs', head')"
      using hd lt num run
      by (subst pop_builtin_stack.simps) (simp add: default_builtin_entry_def)
    moreover have "\<forall>i < length bs.
        bs' ! i = (if Some i \<in> set (map entry_index (takeWhile (\<lambda>e. h < activation_block_num e) (e # es)))
                   then default_builtin_entry else bs ! i)"
      using slots True idx lt by (auto simp: nth_list_update)
    ultimately show ?thesis using len chain True by simp
  next
    case False
    then have "pop_builtin_stack h bs head = Inr (bs, head)"
      using hd lt num by (subst pop_builtin_stack.simps) (simp add: not_less)
    then show ?thesis using False Cons.prems by simp
  qed
qed

lemma pop_back_while_eq:
  "pop_back_while h es = rev (dropWhile (\<lambda>e. h < activation_block_num e) (rev es))"
proof (induction h es rule: pop_back_while.induct)
  case (1 h es)
  show ?case
  proof (cases es rule: rev_cases)
    case Nil
    then show ?thesis by (subst pop_back_while.simps) simp
  next
    case (snoc ys y)
    show ?thesis
    proof (cases "h < activation_block_num y")
      case True
      with snoc 1 have "pop_back_while h ys
          = rev (dropWhile (\<lambda>e. h < activation_block_num e) (rev ys))"
        by simp
      with True snoc show ?thesis by (subst pop_back_while.simps) simp
    next
      case False
      with snoc show ?thesis by (subst pop_back_while.simps) simp
    qed
  qed
qed

lemma pop_back_while_prefix: "\<exists>zs. es = pop_back_while h es @ zs"
proof -
  let ?P = "\<lambda>e. h < activation_block_num e"
  have "rev es = takeWhile ?P (rev es) @ dropWhile ?P (rev es)" by simp
  then have "rev (rev es) = rev (takeWhile ?P (rev es) @ dropWhile ?P (rev es))" by (rule arg_cong)
  then have "es = pop_back_while h es @ rev (takeWhile ?P (rev es))"
    by (simp only: rev_rev_ident rev_append pop_back_while_eq)
  then show ?thesis ..
qed

lemma dropWhile_descending:
  "sorted_wrt (\<lambda>a b. activation_block_num b \<le> activation_block_num a) xs \<Longrightarrow>
   \<forall>e \<in> set (dropWhile (\<lambda>e. h < activation_block_num e) xs). activation_block_num e \<le> (h :: 32 word)"
proof (induction xs)
  case Nil
  then show ?case by simp
next
  case (Cons x xs)
  then show ?case by (auto simp: not_less)
qed

lemma kept_entries_in_range:
  assumes "sorted (map activation_block_num es)"
  shows "\<forall>e \<in> set (pop_back_while h es). activation_block_num e \<le> h"
proof -
  from assms have "sorted_wrt (\<lambda>a b. activation_block_num a \<le> activation_block_num b) es"
    by (simp add: sorted_wrt_map)
  then have "sorted_wrt (\<lambda>a b. activation_block_num b \<le> activation_block_num a) (rev es)"
    by (simp add: sorted_wrt_rev)
  from dropWhile_descending [OF this] show ?thesis by (simp add: pop_back_while_eq)
qed

lemma distinct_map_takeWhile_dropWhile:
  assumes "distinct (map f xs)"
  shows "set (map f (takeWhile P xs)) \<inter> set (map f (dropWhile P xs)) = {}"
proof -
  from assms have "distinct (map f (takeWhile P xs @ dropWhile P xs))"
    by (simp only: takeWhile_dropWhile_id)
  then have "distinct (map f (takeWhile P xs) @ map f (dropWhile P xs))"
    by (simp only: map_append)
  then show ?thesis by (simp only: distinct_append)
qed

lemma set_map_takeWhile_dropWhile:
  "set (map f xs) = set (map f (takeWhile P xs)) \<union> set (map f (dropWhile P xs))"
proof -
  have "set (map f xs) = set (map f (takeWhile P xs @ dropWhile P xs))"
    by (simp only: takeWhile_dropWhile_id)
  then show ?thesis by (simp only: map_append set_append)
qed

lemma popped_blocks_to_result:
  assumes "is_initialized m" and "lifo_stack_integrity m"
  shows "\<exists>bs' head'.
     popped_blocks_to m h =
       (None, m \<lparr> activated_protocol_features := pop_back_while h (activated_protocol_features m),
                 builtin_protocol_features := bs',
                 head_of_builtin_activation_list := head' \<rparr>)
     \<and> length bs' = length (builtin_protocol_features m)
     \<and> stack_chain bs' head' (rev (pop_back_while h (activated_protocol_features m)))
     \<and> (\<forall>i < length (builtin_protocol_features m).
           bs' ! i = (if Some i \<in> set (map entry_index (activated_protocol_features m))
                         \<and> Some i \<notin> set (map entry_index (pop_back_while h (activated_protocol_features m)))
                      then default_builtin_entry else builtin_protocol_features m ! i))"
proof -
  let ?es = "rev (activated_protocol_features m)"
  let ?P = "\<lambda>e. h < activation_block_num e"
  from assms(2) have chain: "stack_chain (builtin_protocol_features m) (head_of_builtin_activation_list m) ?es"
    and dist: "distinct (map entry_index ?es)"
    by (simp_all add: lifo_stack_integrity_def rev_map [symmetric])
  from pop_builtin_stack_chain [OF chain dist, of h] obtain bs' head' where
    run: "pop_builtin_stack h (builtin_protocol_features m) (head_of_builtin_activation_list m) = Inr (bs', head')"
    and len: "length bs' = length (builtin_protocol_features m)"
    and chain': "stack_chain bs' head' (dropWhile ?P ?es)"
    and slots: "\<forall>i < length (builtin_protocol_features m).
          bs' ! i = (if Some i \<in> set (map entry_index (takeWhile ?P ?es))
                     then default_builtin_entry else builtin_protocol_features m ! i)"
    by blast
  have kept: "rev (pop_back_while h (activated_protocol_features m)) = dropWhile ?P ?es"
    by (simp add: pop_back_while_eq)
  have disj: "set (map entry_index (takeWhile ?P ?es)) \<inter> set (map entry_index (dropWhile ?P ?es)) = {}"
    using dist by (rule distinct_map_takeWhile_dropWhile)
  have "set (map entry_index (activated_protocol_features m)) = set (map entry_index ?es)"
    by simp
  also have "\<dots> = set (map entry_index (takeWhile ?P ?es)) \<union> set (map entry_index (dropWhile ?P ?es))"
    by (rule set_map_takeWhile_dropWhile)
  finally have all: "set (map entry_index (activated_protocol_features m))
      = set (map entry_index (takeWhile ?P ?es)) \<union> set (map entry_index (dropWhile ?P ?es))" .
  have popped: "\<And>i. (Some i \<in> set (map entry_index (takeWhile ?P ?es)))
      = (Some i \<in> set (map entry_index (activated_protocol_features m))
         \<and> Some i \<notin> set (map entry_index (pop_back_while h (activated_protocol_features m))))"
  proof -
    fix i
    have "set (map entry_index (pop_back_while h (activated_protocol_features m)))
        = set (map entry_index (rev (pop_back_while h (activated_protocol_features m))))"
      by simp
    then have "set (map entry_index (pop_back_while h (activated_protocol_features m)))
        = set (map entry_index (dropWhile ?P ?es))"
      by (simp only: kept)
    with disj all show "(Some i \<in> set (map entry_index (takeWhile ?P ?es)))
      = (Some i \<in> set (map entry_index (activated_protocol_features m))
         \<and> Some i \<notin> set (map entry_index (pop_back_while h (activated_protocol_features m))))"
      by blast
  qed
  have res: "popped_blocks_to m h =
       (None, m \<lparr> activated_protocol_features := pop_back_while h (activated_protocol_features m),
                 builtin_protocol_features := bs',
                 head_of_builtin_activation_list := head' \<rparr>)"
    using assms(1) run by (simp add: popped_blocks_to_def)
  have chain'': "stack_chain bs' head' (rev (pop_back_while h (activated_protocol_features m)))"
    using chain' by (simp only: kept)
  have slots': "\<forall>i < length (builtin_protocol_features m).
           bs' ! i = (if Some i \<in> set (map entry_index (activated_protocol_features m))
                         \<and> Some i \<notin> set (map entry_index (pop_back_while h (activated_protocol_features m)))
                      then default_builtin_entry else builtin_protocol_features m ! i)"
    using slots by (simp only: popped)
  from res len chain'' slots' show ?thesis by blast
qed

lemma popped_blocks_to_preserves:
  assumes init: "is_initialized m" and inv: "log_invariants m"
  shows "fst (popped_blocks_to m h) = None"
    and "is_initialized (snd (popped_blocks_to m h))"
    and "log_invariants (snd (popped_blocks_to m h))"
    and "inactive_slots_reset m \<Longrightarrow> inactive_slots_reset (snd (popped_blocks_to m h))"
    and "activated_protocol_features (snd (popped_blocks_to m h))
           = pop_back_while h (activated_protocol_features m)"
proof -
  let ?es = "activated_protocol_features m"
  let ?bs = "builtin_protocol_features m"
  let ?kept = "pop_back_while h ?es"
  from inv have mono: "sorted (map activation_block_num ?es)"
    and coh: "\<forall>i < length ?bs. slot_agrees m i"
    and lifo: "lifo_stack_integrity m"
    by (simp_all add: log_invariants_def activation_monotone_def log_index_coherent_def)
  from lifo have dist: "distinct (map entry_index ?es)"
    by (simp add: lifo_stack_integrity_def)
  from popped_blocks_to_result [OF init lifo, of h] obtain bs' head' where
    res: "popped_blocks_to m h =
       (None, m \<lparr> activated_protocol_features := ?kept,
                 builtin_protocol_features := bs',
                 head_of_builtin_activation_list := head' \<rparr>)"
    and len: "length bs' = length ?bs"
    and chain: "stack_chain bs' head' (rev ?kept)"
    and slots: "\<forall>i < length ?bs.
           bs' ! i = (if Some i \<in> set (map entry_index ?es) \<and> Some i \<notin> set (map entry_index ?kept)
                      then default_builtin_entry else ?bs ! i)"
    by blast
  obtain zs where zs: "?es = ?kept @ zs" using pop_back_while_prefix by blast
  from res show "fst (popped_blocks_to m h) = None" by simp
  from res init show "is_initialized (snd (popped_blocks_to m h))" by (simp add: is_initialized_def)
  from res show "activated_protocol_features (snd (popped_blocks_to m h)) = ?kept" by simp
  have sub: "set (map entry_index ?kept) \<subseteq> set (map entry_index ?es)"
    by (subst (2) zs) auto
  have mono': "sorted (map activation_block_num ?kept)"
    using mono by (subst (asm) zs) (simp add: sorted_append)
  have dist': "distinct (map entry_index ?kept)"
    using dist by (subst (asm) zs) simp
  have coh': "\<forall>i < length bs'.
      (builtin_activation_block_num (bs' ! i) \<noteq> not_active) = (Some i \<in> set (map entry_index ?kept))"
  proof (intro allI impI)
    fix i assume "i < length bs'"
    with len have i: "i < length ?bs" by simp
    with coh have agree: "(builtin_activation_block_num (?bs ! i) \<noteq> not_active)
        = (Some i \<in> set (map entry_index ?es))"
      by (simp add: slot_agrees_def)
    from slots i have eq: "bs' ! i = (if Some i \<in> set (map entry_index ?es) \<and> Some i \<notin> set (map entry_index ?kept)
                      then default_builtin_entry else ?bs ! i)" by blast
    show "(builtin_activation_block_num (bs' ! i) \<noteq> not_active) = (Some i \<in> set (map entry_index ?kept))"
      using eq agree sub by (auto simp: default_builtin_entry_def)
  qed
  show "log_invariants (snd (popped_blocks_to m h))"
    using res mono' dist' coh' chain
    by (simp add: log_invariants_def activation_monotone_def log_index_coherent_def
        slot_agrees_def lifo_stack_integrity_def)
  show "inactive_slots_reset (snd (popped_blocks_to m h))" if reset: "inactive_slots_reset m"
  proof -
    have "\<forall>i < length bs'. builtin_activation_block_num (bs' ! i) = not_active
        \<longrightarrow> previous (bs' ! i) = no_previous"
    proof (intro allI impI)
      fix i assume "i < length bs'" and na: "builtin_activation_block_num (bs' ! i) = not_active"
      with len have i: "i < length ?bs" by simp
      from slots i have eq: "bs' ! i = (if Some i \<in> set (map entry_index ?es) \<and> Some i \<notin> set (map entry_index ?kept)
                      then default_builtin_entry else ?bs ! i)" by blast
      show "previous (bs' ! i) = no_previous"
        using eq na reset i by (auto simp: default_builtin_entry_def inactive_slots_reset_def split: if_splits)
    qed
    with res show ?thesis by (simp add: inactive_slots_reset_def)
  qed
qed

section \<open>Lemmas on activation\<close>

lemma sorted_le_last: "sorted xs \<Longrightarrow> x \<in> set xs \<Longrightarrow> x \<le> last xs"
  by (induction xs) auto

lemma activate_feature_success:
  assumes "fst (activate_feature m d n) = None"
  shows "\<exists>itr c. recognized_protocol_features (pfm_protocol_feature_set m) d = Some itr
      \<and> builtin_feature itr = Some c
      \<and> is_initialized m
      \<and> (activated_protocol_features m = [] \<or> activation_block_num (last (activated_protocol_features m)) \<le> n)
      \<and> unat c < length (builtin_protocol_features m)
      \<and> builtin_activation_block_num (builtin_protocol_features m ! unat c) = not_active
      \<and> snd (activate_feature m d n) =
          m \<lparr> activated_protocol_features :=
                activated_protocol_features m @
                  [\<lparr> iterator_to_protocol_feature = itr, activation_block_num = n \<rparr>],
              builtin_protocol_features :=
                list_update (builtin_protocol_features m) (unat c)
                  \<lparr> previous = head_of_builtin_activation_list m,
                    builtin_activation_block_num = n \<rparr>,
              head_of_builtin_activation_list := unat c \<rparr>"
  using assms
  by (auto simp: activate_feature_def Let_def split: if_splits option.splits)

lemma activate_feature_failure:
  "fst (activate_feature m d n) = Some e \<Longrightarrow> snd (activate_feature m d n) = m"
  by (auto simp: activate_feature_def Let_def split: if_splits option.splits)

lemma activate_feature_preserves:
  assumes inv: "log_invariants m" and n: "n \<noteq> not_active"
  shows "log_invariants (snd (activate_feature m d n))"
    and "inactive_slots_reset m \<Longrightarrow> inactive_slots_reset (snd (activate_feature m d n))"
    and "is_initialized m \<Longrightarrow> is_initialized (snd (activate_feature m d n))"
proof -
  let ?es = "activated_protocol_features m"
  let ?bs = "builtin_protocol_features m"
  let ?m' = "snd (activate_feature m d n)"
  have "log_invariants ?m' \<and> (inactive_slots_reset m \<longrightarrow> inactive_slots_reset ?m')
      \<and> (is_initialized m \<longrightarrow> is_initialized ?m')"
  proof (cases "fst (activate_feature m d n)")
    case (Some e)
    then have "?m' = m" by (rule activate_feature_failure)
    with inv show ?thesis by simp
  next
    case None
    from activate_feature_success [OF None] obtain itr c where
      code: "builtin_feature itr = Some c"
      and last: "?es = [] \<or> activation_block_num (last ?es) \<le> n"
      and lt: "unat c < length ?bs"
      and inactive: "builtin_activation_block_num (?bs ! unat c) = not_active"
      and m': "?m' = m \<lparr> activated_protocol_features :=
                ?es @ [\<lparr> iterator_to_protocol_feature = itr, activation_block_num = n \<rparr>],
              builtin_protocol_features :=
                list_update ?bs (unat c)
                  \<lparr> previous = head_of_builtin_activation_list m,
                    builtin_activation_block_num = n \<rparr>,
              head_of_builtin_activation_list := unat c \<rparr>"
      by blast
    let ?new = "\<lparr> iterator_to_protocol_feature = itr, activation_block_num = n \<rparr>"
    let ?slot = "\<lparr> previous = head_of_builtin_activation_list m, builtin_activation_block_num = n \<rparr>"
    have idx: "entry_index ?new = Some (unat c)"
      using code by (simp add: entry_index_def entry_code_def)
    from inv have mono: "sorted (map activation_block_num ?es)"
      and coh: "\<forall>i < length ?bs. slot_agrees m i"
      and chain: "stack_chain ?bs (head_of_builtin_activation_list m) (rev ?es)"
      and dist: "distinct (map entry_index ?es)"
      by (simp_all add: log_invariants_def activation_monotone_def log_index_coherent_def
          lifo_stack_integrity_def)
    from coh lt have "slot_agrees m (unat c)" by blast
    with inactive have fresh: "Some (unat c) \<notin> set (map entry_index ?es)"
      by (simp add: slot_agrees_def)
    have mono': "sorted (map activation_block_num (?es @ [?new]))"
    proof (cases "?es = []")
      case True
      then show ?thesis by simp
    next
      case False
      with last have le: "activation_block_num (last ?es) \<le> n" by simp
      have "\<forall>x \<in> set (map activation_block_num ?es). x \<le> n"
      proof
        fix x assume x: "x \<in> set (map activation_block_num ?es)"
        from False have "map activation_block_num ?es \<noteq> []" by simp
        from mono x have "x \<le> last (map activation_block_num ?es)"
          by (rule sorted_le_last)
        also have "\<dots> = activation_block_num (last ?es)" using False by (simp add: last_map)
        finally show "x \<le> n" using le by simp
      qed
      with mono show ?thesis by (simp add: sorted_append)
    qed
    have chain': "stack_chain (list_update ?bs (unat c) ?slot) (unat c) (?new # rev ?es)"
      using idx lt stack_chain_update [OF chain, of "unat c" ?slot] fresh by simp
    have coh': "\<forall>i < length ?bs.
        (builtin_activation_block_num (list_update ?bs (unat c) ?slot ! i) \<noteq> not_active)
          = (Some i \<in> set (map entry_index (?es @ [?new])))"
      using coh n idx lt by (auto simp: slot_agrees_def nth_list_update)
    have inv': "log_invariants ?m'"
      using m' mono' chain' coh' dist fresh idx lt
      by (simp add: log_invariants_def activation_monotone_def log_index_coherent_def
          slot_agrees_def lifo_stack_integrity_def)
    have reset': "inactive_slots_reset ?m'" if reset: "inactive_slots_reset m"
    proof -
      have "\<forall>i < length ?bs.
          builtin_activation_block_num (list_update ?bs (unat c) ?slot ! i) = not_active
            \<longrightarrow> previous (list_update ?bs (unat c) ?slot ! i) = no_previous"
      proof (intro allI impI)
        fix i assume i: "i < length ?bs"
          and na: "builtin_activation_block_num (list_update ?bs (unat c) ?slot ! i) = not_active"
        show "previous (list_update ?bs (unat c) ?slot ! i) = no_previous"
        proof (cases "i = unat c")
          case True
          with na i n show ?thesis by simp
        next
          case False
          with na i reset show ?thesis by (simp add: inactive_slots_reset_def)
        qed
      qed
      with m' show ?thesis by (simp add: inactive_slots_reset_def)
    qed
    have "is_initialized ?m'" if "is_initialized m"
      using that m' by (simp add: is_initialized_def)
    with inv' reset' show ?thesis by blast
  qed
  then show "log_invariants ?m'"
    and "inactive_slots_reset m \<Longrightarrow> inactive_slots_reset ?m'"
    and "is_initialized m \<Longrightarrow> is_initialized ?m'"
    by blast+
qed

section \<open>Lemmas on reachable states\<close>

lemma new_manager_invariants:
  "log_invariants (new_protocol_feature_manager s \<lparr> initialized := True \<rparr>)"
  "inactive_slots_reset (new_protocol_feature_manager s \<lparr> initialized := True \<rparr>)"
  by (simp_all add: new_protocol_feature_manager_def log_invariants_def activation_monotone_def
      log_index_coherent_def slot_agrees_def lifo_stack_integrity_def inactive_slots_reset_def
      default_builtin_entry_def)

lemma replay_preserves:
  assumes "log_invariants m" and "inactive_slots_reset m" and "is_initialized m"
    and "\<forall>f \<in> set journal. snd f \<noteq> not_active"
  shows "log_invariants (snd (replay m journal))
       \<and> inactive_slots_reset (snd (replay m journal))
       \<and> (fst (replay m journal) = None \<longrightarrow> is_initialized (snd (replay m journal)))"
  using assms
proof (induction journal arbitrary: m)
  case Nil
  then show ?case by simp
next
  case (Cons f fs)
  obtain d n where f: "f = (d, n)" by (cases f)
  with Cons.prems have n: "n \<noteq> not_active" by simp
  let ?m' = "snd (activate_feature m d n)"
  from Cons.prems n have inv': "log_invariants ?m'" and reset': "inactive_slots_reset ?m'"
    and init': "is_initialized ?m'"
    by (simp_all add: activate_feature_preserves)
  show ?case
  proof (cases "fst (activate_feature m d n)")
    case None
    then have "replay m (f # fs) = replay ?m' fs"
      by (cases "activate_feature m d n") (simp add: f)
    moreover from Cons.prems have "\<forall>f \<in> set fs. snd f \<noteq> not_active" by simp
    ultimately show ?thesis using Cons.IH [OF inv' reset' init'] by simp
  next
    case (Some e)
    then have "replay m (f # fs) = (Some e, ?m')"
      by (cases "activate_feature m d n") (simp add: f)
    with inv' reset' show ?thesis by simp
  qed
qed

lemma init_well_formed:
  assumes "fst (init (new_protocol_feature_manager s) journal) = None"
    and "\<forall>f \<in> set journal. snd f \<noteq> not_active"
  shows "is_initialized (snd (init (new_protocol_feature_manager s) journal))
     \<and> log_invariants (snd (init (new_protocol_feature_manager s) journal))
     \<and> inactive_slots_reset (snd (init (new_protocol_feature_manager s) journal))"
proof -
  let ?m = "new_protocol_feature_manager s \<lparr> initialized := True \<rparr>"
  have "is_initialized ?m" by (simp add: is_initialized_def)
  from replay_preserves [OF new_manager_invariants this assms(2)] assms(1)
  show ?thesis
    by (auto simp: init_def is_initialized_def new_protocol_feature_manager_def
        split: prod.splits option.splits if_splits)
qed

lemma run_call_preserves:
  assumes "is_initialized m" and "log_invariants m" and "inactive_slots_reset m"
    and "\<not> activates_at not_active c"
  shows "is_initialized (run_call m c) \<and> log_invariants (run_call m c) \<and> inactive_slots_reset (run_call m c)"
proof (cases c)
  case (Activate d n)
  with assms show ?thesis by (simp add: activate_feature_preserves)
next
  case (Popped n)
  with assms show ?thesis by (simp add: popped_blocks_to_preserves)
qed

lemma run_calls_preserves:
  assumes "is_initialized m" and "log_invariants m" and "inactive_slots_reset m"
    and "\<forall>c \<in> set cs. \<not> activates_at not_active c"
  shows "is_initialized (run_calls m cs) \<and> log_invariants (run_calls m cs)
     \<and> inactive_slots_reset (run_calls m cs)"
  using assms unfolding run_calls_def
proof (induction cs arbitrary: m)
  case Nil
  then show ?case by simp
next
  case (Cons c cs)
  from Cons.prems have "\<not> activates_at not_active c" by simp
  from run_call_preserves [OF Cons.prems(1-3) this] Cons.prems(4) Cons.IH [of "run_call m c"]
  show ?case by simp
qed

lemma not_active_le: "(not_active \<le> h) = (h = not_active)"
proof -
  have "not_active = - 1" by (simp add: not_active_def)
  moreover have "h \<le> - 1" by (rule max_word_max)
  ultimately have "h \<le> not_active" by (simp only:)
  then show ?thesis by auto
qed

lemma activated_iff_entry:
  assumes inv: "log_invariants m" and h: "h \<noteq> not_active"
  shows "is_builtin_activated m c h
     = (\<exists>e \<in> set (activated_protocol_features m). entry_code e = Some c \<and> activation_block_num e \<le> h)"
proof -
  let ?es = "activated_protocol_features m"
  let ?bs = "builtin_protocol_features m"
  from inv have coh: "\<forall>i < length ?bs. slot_agrees m i"
    and chain: "stack_chain ?bs (head_of_builtin_activation_list m) (rev ?es)"
    by (simp_all add: log_invariants_def log_index_coherent_def lifo_stack_integrity_def)
  have slot: "unat c < length ?bs \<and> builtin_activation_block_num (?bs ! unat c) = activation_block_num e"
    if "e \<in> set ?es" and "entry_code e = Some c" for e
  proof -
    from that have "e \<in> set (rev ?es)" and "entry_index e = Some (unat c)"
      by (simp_all add: entry_index_def)
    with chain show ?thesis by (rule stack_chain_slot)
  qed
  show ?thesis
  proof (cases "\<exists>e \<in> set ?es. entry_code e = Some c")
    case True
    then obtain e where e: "e \<in> set ?es" "entry_code e = Some c" by blast
    from slot [OF e] have lt: "unat c < length ?bs"
      and eq: "builtin_activation_block_num (?bs ! unat c) = activation_block_num e" by simp_all
    have "is_builtin_activated m c h = (activation_block_num e \<le> h)"
      using lt eq by (simp add: is_builtin_activated_def)
    moreover have "(\<exists>e' \<in> set ?es. entry_code e' = Some c \<and> activation_block_num e' \<le> h)
        = (activation_block_num e \<le> h)"
      using e slot eq by metis
    ultimately show ?thesis by simp
  next
    case False
    have "\<not> is_builtin_activated m c h"
    proof (cases "unat c < length ?bs")
      case True
      with coh have "slot_agrees m (unat c)" by blast
      moreover have "Some (unat c) \<notin> set (map entry_index ?es)"
      proof
        assume "Some (unat c) \<in> set (map entry_index ?es)"
        then obtain e where e: "e \<in> set ?es" and "entry_index e = Some (unat c)" by auto
        then obtain c' where c': "entry_code e = Some c'" and "unat c' = unat c"
          by (auto simp: entry_index_def)
        then have "c' = c" by (simp add: word_unat_eq_iff)
        with c' e False show False by blast
      qed
      ultimately have "builtin_activation_block_num (?bs ! unat c) = not_active"
        by (simp add: slot_agrees_def)
      with True h show ?thesis by (simp add: is_builtin_activated_def not_active_le)
    next
      case False
      then show ?thesis by (simp add: is_builtin_activated_def)
    qed
    with False show ?thesis by blast
  qed
qed

section \<open>Lemmas on the binary search\<close>

lemma std_bound_partitioned:
  assumes "first + len \<le> length xs"
    and "\<forall>i j. i \<le> j \<and> j < length xs \<and> before (xs ! j) \<longrightarrow> before (xs ! i)"
  shows "first \<le> std_bound before xs first len
       \<and> std_bound before xs first len \<le> first + len
       \<and> (\<forall>i. first \<le> i \<and> i < std_bound before xs first len \<longrightarrow> before (xs ! i))
       \<and> (\<forall>i. std_bound before xs first len \<le> i \<and> i < first + len \<longrightarrow> \<not> before (xs ! i))"
  using assms
proof (induction before xs first len rule: std_bound.induct)
  case (1 before xs first len)
  show ?case
  proof (cases "len > 0")
    case False
    then have "std_bound before xs first len = first"
      by (subst std_bound.simps) simp
    with False show ?thesis by auto
  next
    case True
    let ?half = "len div 2"
    let ?middle = "first + ?half"
    from True have half: "?half < len" by simp
    with "1.prems"(1) have mid: "?middle < length xs" by simp
    show ?thesis
    proof (cases "before (xs ! ?middle)")
      case before: True
      let ?r = "std_bound before xs (?middle + 1) (len - ?half - 1)"
      have eq: "std_bound before xs first len = ?r"
        using True before by (subst std_bound.simps) (simp add: Let_def)
      have "?middle + 1 + (len - ?half - 1) \<le> length xs" using half "1.prems"(1) by simp
      from "1.IH"(1) [OF True refl refl before this "1.prems"(2)]
      have lo: "?middle + 1 \<le> ?r" and hi: "?r \<le> ?middle + 1 + (len - ?half - 1)"
        and below: "\<forall>i. ?middle + 1 \<le> i \<and> i < ?r \<longrightarrow> before (xs ! i)"
        and above: "\<forall>i. ?r \<le> i \<and> i < ?middle + 1 + (len - ?half - 1) \<longrightarrow> \<not> before (xs ! i)"
        by simp_all
      have "before (xs ! i)" if "first \<le> i" and "i < ?r" for i
      proof (cases "i \<le> ?middle")
        case True
        with "1.prems"(2) mid before show ?thesis by blast
      next
        case False
        with below that show ?thesis by simp
      qed
      moreover have "\<not> before (xs ! i)" if "?r \<le> i" and "i < first + len" for i
        using above that half by simp
      ultimately show ?thesis using lo hi half unfolding eq by auto
    next
      case notbefore: False
      let ?r = "std_bound before xs first ?half"
      have eq: "std_bound before xs first len = ?r"
        using True notbefore by (subst std_bound.simps) (simp add: Let_def)
      have "first + ?half \<le> length xs" using half "1.prems"(1) by simp
      from "1.IH"(2) [OF True refl refl notbefore this "1.prems"(2)]
      have lo: "first \<le> ?r" and hi: "?r \<le> first + ?half"
        and below: "\<forall>i. first \<le> i \<and> i < ?r \<longrightarrow> before (xs ! i)"
        and above: "\<forall>i. ?r \<le> i \<and> i < first + ?half \<longrightarrow> \<not> before (xs ! i)"
        by simp_all
      have "\<not> before (xs ! i)" if "?r \<le> i" and "i < first + len" for i
      proof (cases "i < ?middle")
        case True
        with above that show ?thesis by simp
      next
        case False
        then have "?middle \<le> i" by simp
        moreover from that "1.prems"(1) have "i < length xs" by simp
        ultimately show ?thesis using "1.prems"(2) notbefore by blast
      qed
      with below lo hi half show ?thesis unfolding eq by auto
    qed
  qed
qed

lemma std_bound_first:
  assumes part: "\<forall>i j. i \<le> j \<and> j < length xs \<and> before (xs ! j) \<longrightarrow> before (xs ! i)"
  shows "(if \<exists>x \<in> set xs. \<not> before x
          then std_bound before xs 0 (length xs) < length xs
               \<and> \<not> before (xs ! std_bound before xs 0 (length xs))
               \<and> (\<forall>j < std_bound before xs 0 (length xs). before (xs ! j))
          else std_bound before xs 0 (length xs) = length xs)"
proof -
  let ?r = "std_bound before xs 0 (length xs)"
  have "0 + length xs \<le> length xs" by simp
  from std_bound_partitioned [OF this part]
  have hi: "?r \<le> length xs" and below: "\<forall>i < ?r. before (xs ! i)"
    and above: "\<forall>i. ?r \<le> i \<and> i < length xs \<longrightarrow> \<not> before (xs ! i)"
    by simp_all
  show ?thesis
  proof (cases "\<exists>x \<in> set xs. \<not> before x")
    case True
    then obtain k where "k < length xs" and "\<not> before (xs ! k)"
      by (auto simp: in_set_conv_nth)
    with below have "\<not> k < ?r" by blast
    with \<open>k < length xs\<close> have "?r < length xs" by simp
    with above below True show ?thesis by simp
  next
    case False
    have "?r = length xs"
    proof (rule ccontr)
      assume "?r \<noteq> length xs"
      with hi have lt: "?r < length xs" by simp
      with above have "\<not> before (xs ! ?r)" by simp
      moreover from lt have "xs ! ?r \<in> set xs" by simp
      ultimately show False using False by blast
    qed
    with False show ?thesis by simp
  qed
qed

section \<open>Lemmas on the dependency check of the catalog\<close>

lemma resolved_builtins_Cons:
  "resolved_builtins s (d # ds) =
     (case recognized_protocol_features s d of
        None \<Rightarrow> {}
      | Some itr \<Rightarrow> (case builtin_feature itr of None \<Rightarrow> {} | Some c \<Rightarrow> {c}))
     \<union> resolved_builtins s ds"
  by (simp add: resolved_builtins_def split: option.splits)

lemma resolved_builtins_iff:
  "c \<in> resolved_builtins s ds
     = (\<exists>d \<in> set ds. \<exists>itr. recognized_protocol_features s d = Some itr \<and> builtin_feature itr = Some c)"
proof (induction ds)
  case Nil
  then show ?case by (simp add: resolved_builtins_def)
next
  case (Cons d ds)
  then show ?case by (auto simp: resolved_builtins_Cons split: option.splits)
qed

lemma satisfied_dependencies_Inr:
  "satisfied_dependencies (recognized_protocol_features s) expected ds satisfied = Inr result \<Longrightarrow>
   fset result = fset satisfied \<union> (resolved_builtins s ds \<inter> fset expected)"
proof (induction ds arbitrary: satisfied)
  case Nil
  then show ?case by (simp add: resolved_builtins_def)
next
  case (Cons d ds)
  then obtain itr where itr: "recognized_protocol_features s d = Some itr"
    by (auto split: option.splits)
  show ?case
  proof (cases "builtin_feature itr")
    case None
    with Cons itr show ?thesis by (simp add: resolved_builtins_Cons)
  next
    case (Some c)
    with Cons.prems itr
    have "satisfied_dependencies (recognized_protocol_features s) expected ds
            (if c |\<in>| expected then finsert c satisfied else satisfied) = Inr result"
      by simp
    from Cons.IH [OF this] itr Some show ?thesis
      by (auto simp: resolved_builtins_Cons)
  qed
qed

lemma satisfied_dependencies_recognized:
  "\<forall>d \<in> set ds. recognized d \<noteq> None \<Longrightarrow>
   \<exists>result. satisfied_dependencies recognized expected ds satisfied = Inr result"
  by (induction ds arbitrary: satisfied) auto

lemma fcard_less_iff_not_subset:
  assumes "fset result = resolved \<inter> fset expected"
  shows "(fcard expected > fcard result) = (\<not> fset expected \<subseteq> resolved)"
proof -
  from assms have sub: "result |\<subseteq>| expected" by (auto simp: less_eq_fset.rep_eq)
  show ?thesis
  proof (cases "result = expected")
    case True
    with assms show ?thesis by auto
  next
    case False
    with sub have "result |\<subset>| expected" by auto
    then have "fcard result < fcard expected" by (rule pfsubset_fcard_mono)
    moreover from False assms have "\<not> fset expected \<subseteq> resolved"
      by (metis fset_inject inf.absorb_iff2)
    ultimately show ?thesis by simp
  qed
qed

lemma missing_builtins_with_names_known:
  "\<forall>c \<in> set cs. specs c \<noteq> None \<Longrightarrow> \<exists>names. missing_builtins_with_names specs cs = Inr names"
  by (induction cs) auto

section \<open>The example states, evaluated\<close>

lemma manager_AB_eq:
  "manager_AB = \<lparr> pfm_protocol_feature_set = catalog_AB,
       activated_protocol_features = [],
       builtin_protocol_features = [default_builtin_entry, default_builtin_entry],
       head_of_builtin_activation_list = no_previous,
       initialized = True \<rparr>"
  by (simp add: manager_AB_def init_def new_protocol_feature_manager_def catalog_AB_def
      is_initialized_def)

lemma catalog_AB_lookup:
  "recognized_protocol_features catalog_AB dA = Some feature_A"
  "recognized_protocol_features catalog_AB dB = Some feature_B"
  "recognized_protocol_features catalog_AB 0xC = None"
  by (simp_all add: catalog_AB_def dA_def dB_def)

lemma feature_codes:
  "builtin_feature feature_A = Some 0" "builtin_feature feature_B = Some 1"
  by (simp_all add: feature_A_def feature_B_def preactivate_feature_def
      only_link_to_existing_permission_def)

lemmas eval_simps = activate_feature_def popped_blocks_to_def is_initialized_def
  catalog_AB_lookup feature_codes default_builtin_entry_def not_active_def no_previous_def
  pop_builtin_stack.simps pop_back_while.simps run_calls_def

lemma manager_A_eq:
  "manager_A = \<lparr> pfm_protocol_feature_set = catalog_AB,
       activated_protocol_features =
         [\<lparr> iterator_to_protocol_feature = feature_A, activation_block_num = 100 \<rparr>],
       builtin_protocol_features =
         [\<lparr> previous = no_previous, builtin_activation_block_num = 100 \<rparr>, default_builtin_entry],
       head_of_builtin_activation_list = 0,
       initialized = True \<rparr>"
  unfolding manager_A_def manager_AB_eq by (simp add: eval_simps)

lemma manager_A_B_eq:
  "manager_A_B = \<lparr> pfm_protocol_feature_set = catalog_AB,
       activated_protocol_features =
         [\<lparr> iterator_to_protocol_feature = feature_A, activation_block_num = 100 \<rparr>,
          \<lparr> iterator_to_protocol_feature = feature_B, activation_block_num = 150 \<rparr>],
       builtin_protocol_features =
         [\<lparr> previous = no_previous, builtin_activation_block_num = 100 \<rparr>,
          \<lparr> previous = 0, builtin_activation_block_num = 150 \<rparr>],
       head_of_builtin_activation_list = 1,
       initialized = True \<rparr>"
  unfolding manager_A_B_def manager_AB_eq by (simp add: eval_simps)

lemma manager_stale_eq:
  "manager_stale = \<lparr> pfm_protocol_feature_set = catalog_AB,
       activated_protocol_features = [],
       builtin_protocol_features =
         [default_builtin_entry, \<lparr> previous = 1, builtin_activation_block_num = not_active \<rparr>],
       head_of_builtin_activation_list = no_previous,
       initialized = True \<rparr>"
  unfolding manager_stale_def manager_AB_eq by (simp add: eval_simps)

lemma manager_orphaned_eq:
  "manager_orphaned = \<lparr> pfm_protocol_feature_set = catalog_AB,
       activated_protocol_features = [],
       builtin_protocol_features =
         [\<lparr> previous = no_previous, builtin_activation_block_num = 10 \<rparr>, default_builtin_entry],
       head_of_builtin_activation_list = no_previous,
       initialized = True \<rparr>"
  unfolding manager_orphaned_def manager_AB_eq by (simp add: eval_simps)


lemma manager_incoherent_eq:
  "manager_incoherent = \<lparr> pfm_protocol_feature_set = catalog_AB,
       activated_protocol_features =
         [\<lparr> iterator_to_protocol_feature = feature_A, activation_block_num = 100 \<rparr>],
       builtin_protocol_features =
         [\<lparr> previous = no_previous, builtin_activation_block_num = 150 \<rparr>, default_builtin_entry],
       head_of_builtin_activation_list = 0,
       initialized = True \<rparr>"
  unfolding manager_incoherent_def manager_A_eq by simp

lemmas invariant_defs = log_invariants_def activation_monotone_def log_index_coherent_def
  slot_agrees_def lifo_stack_integrity_def inactive_slots_reset_def entry_index_def entry_code_def

lemma manager_A_invariants: "log_invariants manager_A" "inactive_slots_reset manager_A"
  unfolding manager_A_eq
  by (simp_all add: invariant_defs feature_codes default_builtin_entry_def not_active_def All_less_Suc)

lemma manager_A_B_invariants: "log_invariants manager_A_B" "inactive_slots_reset manager_A_B"
  unfolding manager_A_B_eq
  by (simp_all add: invariant_defs feature_codes default_builtin_entry_def not_active_def All_less_Suc)

lemma codenames_lookup:
  "builtin_protocol_feature_codenames only_link_to_existing_permission =
     Some \<lparr> codename = ''ONLY_LINK_TO_EXISTING_PERMISSION'',
            s_description_digest = 0xf3c3d91c4603cde2397268bfed4e662465293aab10cd9416db0d442b8cec2949,
            builtin_dependencies = {||},
            s_subjective_restrictions =
              \<lparr> r_earliest_allowed_activation_time = 0, r_preactivation_required = True,
                r_enabled = True \<rparr> \<rparr>"
  "codenames_B_needs_A only_link_to_existing_permission =
     Some \<lparr> codename = ''ONLY_LINK_TO_EXISTING_PERMISSION'',
            s_description_digest = 0xf3c3d91c4603cde2397268bfed4e662465293aab10cd9416db0d442b8cec2949,
            builtin_dependencies = {|preactivate_feature|},
            s_subjective_restrictions =
              \<lparr> r_earliest_allowed_activation_time = 0, r_preactivation_required = True,
                r_enabled = True \<rparr> \<rparr>"
  "codenames_B_needs_A preactivate_feature \<noteq> None"
  by (simp_all add: builtin_protocol_feature_codenames_def codenames_B_needs_A_def
      preactivate_feature_def only_link_to_existing_permission_def)

lemma resolved_dA: "resolved_builtins catalog_A [dA] = {preactivate_feature}"
  by (simp add: resolved_builtins_def catalog_A_def feature_A_def)

lemma resolved_Nil: "resolved_builtins catalog_A [] = {}"
  by (simp add: resolved_builtins_def)

lemma builtin_B_fields:
  "f_codename (builtin_B deps) = only_link_to_existing_permission"
  "f_dependencies (builtin_B deps) = deps"
  by (simp_all add: builtin_B_def)

lemma add_B_to_catalog_A:
  "add_feature builtin_protocol_feature_codenames digest_AB catalog_A (builtin_B [dA])
     = Inr (feature_B \<lparr> dependencies := [dA] \<rparr>,
            \<lparr> recognized_protocol_features =
                [dA \<mapsto> feature_A, dB \<mapsto> feature_B \<lparr> dependencies := [dA] \<rparr>],
              recognized_builtin_protocol_features = [Some dA, Some dB] \<rparr>)"
  unfolding add_feature_def builtin_B_fields codenames_lookup
  by (simp add: Let_def builtin_B_def digest_AB_def catalog_A_def feature_A_def feature_B_def dA_def dB_def
      preactivate_feature_def only_link_to_existing_permission_def)

section \<open>The activation query\<close>

text \<open>
  Claim C1, as amended. For every builtin code \<open>c\<close> and every block number \<open>h\<close> other
  than \<open>NOT_ACTIVE\<close>, \<^verbatim>\<open>is_builtin_activated(c, h)\<close> returns true if and only if
  \<open>c\<close> has a slot in the slot vector, the slot is not \<open>NOT_ACTIVE\<close> and its
  activation block number is at most \<open>h\<close>. And after \<^verbatim>\<open>init\<close> has replayed a journal into
  a new manager, followed by any sequence of \<^verbatim>\<open>activate_feature\<close> and
  \<^verbatim>\<open>popped_blocks_to\<close> calls (throwing or not), none of them an activation at block number
  \<open>NOT_ACTIVE\<close>, \<^verbatim>\<open>is_builtin_activated(c, h)\<close> equals the existence of a log entry
  for \<open>c\<close> with activation block at most \<open>h\<close>.
\<close>

theorem is_builtin_activated_characterised:
  assumes "h \<noteq> not_active"
  shows "(is_builtin_activated m c h
            = (unat c < length (builtin_protocol_features m)
               \<and> builtin_activation_block_num (builtin_protocol_features m ! unat c) \<noteq> not_active
               \<and> builtin_activation_block_num (builtin_protocol_features m ! unat c) \<le> h))
     \<and> (fst (init (new_protocol_feature_manager s) journal) = None
          \<and> (\<forall>f \<in> set journal. snd f \<noteq> not_active)
          \<and> (\<forall>c \<in> set calls. \<not> activates_at not_active c)
         \<longrightarrow> is_builtin_activated
               (run_calls (snd (init (new_protocol_feature_manager s) journal)) calls) c h
             = (\<exists>e \<in> set (activated_protocol_features
                            (run_calls (snd (init (new_protocol_feature_manager s) journal)) calls)).
                  entry_code e = Some c \<and> activation_block_num e \<le> h))"
proof (intro conjI impI)
  show "is_builtin_activated m c h
            = (unat c < length (builtin_protocol_features m)
               \<and> builtin_activation_block_num (builtin_protocol_features m ! unat c) \<noteq> not_active
               \<and> builtin_activation_block_num (builtin_protocol_features m ! unat c) \<le> h)"
    using assms by (auto simp: is_builtin_activated_def Let_def not_active_le)
next
  let ?m0 = "snd (init (new_protocol_feature_manager s) journal)"
  assume "fst (init (new_protocol_feature_manager s) journal) = None
          \<and> (\<forall>f \<in> set journal. snd f \<noteq> not_active)
          \<and> (\<forall>c \<in> set calls. \<not> activates_at not_active c)"
  then have ok: "fst (init (new_protocol_feature_manager s) journal) = None"
    and journal: "\<forall>f \<in> set journal. snd f \<noteq> not_active"
    and calls: "\<forall>c \<in> set calls. \<not> activates_at not_active c"
    by simp_all
  from init_well_formed [OF ok journal]
  have "is_initialized ?m0" and "log_invariants ?m0" and "inactive_slots_reset ?m0" by simp_all
  from run_calls_preserves [OF this calls] have "log_invariants (run_calls ?m0 calls)" by simp
  from activated_iff_entry [OF this assms]
  show "is_builtin_activated (run_calls ?m0 calls) c h
      = (\<exists>e \<in> set (activated_protocol_features (run_calls ?m0 calls)).
            entry_code e = Some c \<and> activation_block_num e \<le> h)" .
qed

text \<open>
  The amended claim C1 at a concrete input: after \<open>A\<close> is activated at block 100,
  \<open>A\<close> is active at block 130 and \<open>B\<close> is not; the same holds after a journal with
  that activation, an activation of \<open>B\<close> at block 150 and a rollback to block 120.
\<close>

theorem is_builtin_activated_characterised_witness:
  "is_builtin_activated manager_A preactivate_feature 130
   \<and> \<not> is_builtin_activated manager_A only_link_to_existing_permission 130
   \<and> is_builtin_activated
       (run_calls (snd (init (new_protocol_feature_manager catalog_AB) [(dA, 100)]))
          [Activate dB 150, Popped 120]) preactivate_feature 130"
proof -
  let ?m = "run_calls (snd (init (new_protocol_feature_manager catalog_AB) [(dA, 100)]))
          [Activate dB 150, Popped 120]"
  have h: "(130 :: 32 word) \<noteq> not_active" by (simp add: not_active_def)
  have init: "init (new_protocol_feature_manager catalog_AB) [(dA, 100)] = (None, manager_A)"
    unfolding manager_A_eq
    by (simp add: init_def new_protocol_feature_manager_def eval_simps catalog_AB_def dA_def dB_def)
  have ok: "fst (init (new_protocol_feature_manager catalog_AB) [(dA, 100)]) = None
          \<and> (\<forall>f \<in> set [(dA, 100 :: 32 word)]. snd f \<noteq> not_active)
          \<and> (\<forall>c \<in> set [Activate dB 150, Popped 120]. \<not> activates_at not_active c)"
    by (simp add: init not_active_def)
  have m: "?m = manager_A"
    unfolding init manager_A_eq by (simp add: eval_simps)
  note inst = is_builtin_activated_characterised [OF h, of _ _ catalog_AB "[(dA, 100)]"
      "[Activate dB 150, Popped 120]"]
  from inst [of manager_A preactivate_feature]
  have "is_builtin_activated manager_A preactivate_feature 130"
    by (simp add: manager_A_eq preactivate_feature_def not_active_def)
  moreover from inst [of manager_A only_link_to_existing_permission]
  have "\<not> is_builtin_activated manager_A only_link_to_existing_permission 130"
    by (simp add: manager_A_eq only_link_to_existing_permission_def default_builtin_entry_def)
  moreover from inst [of manager_A preactivate_feature] ok
  have "is_builtin_activated ?m preactivate_feature 130
      = (\<exists>e \<in> set (activated_protocol_features ?m).
            entry_code e = Some preactivate_feature \<and> activation_block_num e \<le> 130)"
    by blast
  then have "is_builtin_activated ?m preactivate_feature 130"
    unfolding m by (simp add: manager_A_eq entry_code_def feature_codes preactivate_feature_def)
  ultimately show ?thesis by simp
qed

text \<open>
  Claim C1 as stated fails at \<open>h = NOT_ACTIVE\<close>: on the manager initialised from an empty
  journal the slot of \<open>A\<close> is \<open>NOT_ACTIVE\<close> and the log is empty, yet the query at that
  block number answers true. The comparison of the source has no guard for the sentinel.
  Its second half also fails at other block numbers once an activation has been made at the
  block number that equals the sentinel: after \<open>A\<close> at block 10, \<open>B\<close> twice at that block
  number and rollbacks to blocks 20 and 5, the log is empty and the query for \<open>A\<close> at
  block 50 answers true.
\<close>

theorem is_builtin_activated_at_sentinel:
  "is_builtin_activated manager_AB preactivate_feature not_active
   \<and> unat preactivate_feature < length (builtin_protocol_features manager_AB)
   \<and> builtin_activation_block_num (builtin_protocol_features manager_AB ! unat preactivate_feature)
       = not_active
   \<and> activated_protocol_features manager_AB = []
   \<and> is_builtin_activated manager_orphaned preactivate_feature 50
   \<and> activated_protocol_features manager_orphaned = []"
  by (simp add: manager_AB_eq manager_orphaned_eq is_builtin_activated_def preactivate_feature_def
      default_builtin_entry_def)

section \<open>Fork rollback\<close>

text \<open>
  Claim C2. For every initialized manager that satisfies the invariants of the log (entries
  sorted by activation block number (I4), slot table coherent with the log (I6), stack
  coherent with the log (I7)) and every block number \<open>h\<close>, \<^verbatim>\<open>popped_blocks_to(h)\<close>
  returns without an exception, every remaining log entry has an activation block number of
  at most \<open>h\<close>, and the slot table agrees with the log: a slot is not \<open>NOT_ACTIVE\<close>
  exactly when an entry for its builtin remains. The invariants hold again afterwards.
\<close>

theorem popped_blocks_to_postcondition:
  assumes "is_initialized m" and "log_invariants m"
  shows "fst (popped_blocks_to m h) = None
     \<and> (\<forall>e \<in> set (activated_protocol_features (snd (popped_blocks_to m h))).
           activation_block_num e \<le> h)
     \<and> log_index_coherent (snd (popped_blocks_to m h))
     \<and> log_invariants (snd (popped_blocks_to m h))"
proof -
  from assms(2) have "sorted (map activation_block_num (activated_protocol_features m))"
    by (simp add: log_invariants_def activation_monotone_def)
  then have "\<forall>e \<in> set (pop_back_while h (activated_protocol_features m)). activation_block_num e \<le> h"
    by (rule kept_entries_in_range)
  with popped_blocks_to_preserves [OF assms, of h] show ?thesis
    by (simp add: log_invariants_def)
qed

text \<open>
  Claim C2 at a concrete input: rolling the log with \<open>A\<close> at block 100 and \<open>B\<close> at
  block 150 back to block 120 gives the log with \<open>A\<close> at block 100.
\<close>

theorem popped_blocks_to_postcondition_witness:
  "popped_blocks_to manager_A_B 120 = (None, manager_A)"
proof -
  have "is_initialized manager_A_B" by (simp add: manager_A_B_eq is_initialized_def)
  from popped_blocks_to_postcondition [OF this manager_A_B_invariants(1), of 120]
  have "fst (popped_blocks_to manager_A_B 120) = None" by simp
  moreover have "snd (popped_blocks_to manager_A_B 120) = manager_A"
    unfolding manager_A_B_eq manager_A_eq by (simp add: eval_simps)
  ultimately show ?thesis by (simp add: prod_eq_iff)
qed

text \<open>
  Claim C3, as amended. For every manager that satisfies the invariants of the log and whose
  inactive slots hold both sentinels, every successful call \<^verbatim>\<open>activate_feature(d, n)\<close>
  made when every log entry is at or below \<open>prev_tip\<close> and \<open>prev_tip < n\<close>, followed
  by \<^verbatim>\<open>popped_blocks_to(prev_tip)\<close>, restores the manager exactly: the entries, the slot
  vector, the head of the stack, and the rest of the state.
\<close>

theorem activate_then_popped_restores:
  assumes inv: "log_invariants m" and reset: "inactive_slots_reset m"
    and ok: "fst (activate_feature m d n) = None"
    and tip: "\<forall>e \<in> set (activated_protocol_features m). activation_block_num e \<le> prev_tip"
    and n: "prev_tip < n"
  shows "popped_blocks_to (snd (activate_feature m d n)) prev_tip = (None, m)"
proof -
  let ?es = "activated_protocol_features m"
  let ?bs = "builtin_protocol_features m"
  let ?head = "head_of_builtin_activation_list m"
  let ?m' = "snd (activate_feature m d n)"
  from activate_feature_success [OF ok] obtain itr c where
    code: "builtin_feature itr = Some c"
    and init: "is_initialized m"
    and lt: "unat c < length ?bs"
    and inactive: "builtin_activation_block_num (?bs ! unat c) = not_active"
    and m': "?m' = m \<lparr> activated_protocol_features :=
                ?es @ [\<lparr> iterator_to_protocol_feature = itr, activation_block_num = n \<rparr>],
              builtin_protocol_features :=
                list_update ?bs (unat c) \<lparr> previous = ?head, builtin_activation_block_num = n \<rparr>,
              head_of_builtin_activation_list := unat c \<rparr>"
    by blast
  let ?new = "\<lparr> iterator_to_protocol_feature = itr, activation_block_num = n \<rparr>"
  let ?slot = "\<lparr> previous = ?head, builtin_activation_block_num = n \<rparr>"
  let ?bs' = "list_update ?bs (unat c) ?slot"
  from n have after: "\<not> n \<le> prev_tip" by simp
  have idx: "entry_index ?new = Some (unat c)"
    using code by (simp add: entry_index_def entry_code_def)
  then have c_np: "unat c \<noteq> no_previous" by (rule entry_index_bound)
  from reset lt inactive have "previous (?bs ! unat c) = no_previous"
    by (simp add: inactive_slots_reset_def)
  with inactive have "?bs ! unat c = default_builtin_entry"
    by (simp add: default_builtin_entry_def)
  then have restored: "list_update ?bs' (unat c)
        \<lparr> previous = no_previous, builtin_activation_block_num = not_active \<rparr> = ?bs"
    by (simp add: default_builtin_entry_def list_update_same_conv [THEN iffD2] lt)
  from inv have chain: "stack_chain ?bs ?head (rev ?es)"
    by (simp add: log_invariants_def lifo_stack_integrity_def)
  have stop: "pop_builtin_stack prev_tip ?bs ?head = Inr (?bs, ?head)"
  proof (cases ?es rule: rev_cases)
    case Nil
    with chain have "?head = no_previous" by simp
    then show ?thesis by (subst pop_builtin_stack.simps) simp
  next
    case (snoc ys y)
    with chain have "?head < length ?bs"
      and "builtin_activation_block_num (?bs ! ?head) = activation_block_num y"
      by simp_all
    moreover from snoc tip have "activation_block_num y \<le> prev_tip" by simp
    ultimately show ?thesis by (subst pop_builtin_stack.simps) simp
  qed
  have "pop_builtin_stack prev_tip ?bs' (unat c) = pop_builtin_stack prev_tip ?bs ?head"
    using c_np lt after restored by (subst pop_builtin_stack.simps) simp
  with stop have stack: "pop_builtin_stack prev_tip ?bs' (unat c) = Inr (?bs, ?head)" by simp
  have keep: "pop_back_while prev_tip ?es = ?es"
  proof (cases ?es rule: rev_cases)
    case Nil
    then show ?thesis by (subst pop_back_while.simps) simp
  next
    case (snoc ys y)
    with tip have "\<not> prev_tip < activation_block_num y" by (simp add: not_less)
    with snoc show ?thesis by (subst pop_back_while.simps) simp
  qed
  have "pop_back_while prev_tip (?es @ [?new]) = pop_back_while prev_tip ?es"
    using n by (subst pop_back_while.simps) simp
  with keep have entries: "pop_back_while prev_tip (?es @ [?new]) = ?es" by simp
  show ?thesis
    using init stack entries by (simp add: m' popped_blocks_to_def is_initialized_def)
qed

text \<open>
  The amended claim C3 at a concrete input: activating \<open>B\<close> at block 150 on the log with
  \<open>A\<close> at block 100, then rolling back to block 120.
\<close>

theorem activate_then_popped_restores_witness:
  "fst (activate_feature manager_A dB 150) = None
   \<and> popped_blocks_to (snd (activate_feature manager_A dB 150)) 120 = (None, manager_A)"
proof -
  have ok: "fst (activate_feature manager_A dB 150) = None"
    unfolding manager_A_eq by (simp add: eval_simps)
  have tip: "\<forall>e \<in> set (activated_protocol_features manager_A). activation_block_num e \<le> 120"
    by (simp add: manager_A_eq)
  have "(120 :: 32 word) < 150" by simp
  from activate_then_popped_restores [OF manager_A_invariants ok tip this] ok
  show ?thesis by simp
qed

text \<open>
  Claim C3 as stated ("every initialized manager state") fails on a state that calls of the
  interface reach: after four activations at the block number that equals \<open>NOT_ACTIVE\<close>
  and a rollback to block 20, the log is empty and the slot of \<open>B\<close> is inactive but still
  holds a \<open>previous\<close> index. Activating \<open>B\<close> at block 30 and rolling back to block 20
  resets that index, so the slot vector differs from the one before the activation.
  It also fails on an initialized state that breaks the coherence of slots and log: with
  \<open>A\<close> logged at block 100 and its slot at block 150, activating \<open>B\<close> at block 130 and
  rolling back to block 120 resets the slot of \<open>A\<close> as well.
\<close>

theorem activate_then_popped_stale_slot:
  "is_initialized manager_stale
   \<and> activated_protocol_features manager_stale = []
   \<and> fst (activate_feature manager_stale dB 30) = None
   \<and> fst (popped_blocks_to (snd (activate_feature manager_stale dB 30)) 20) = None
   \<and> builtin_protocol_features (snd (popped_blocks_to (snd (activate_feature manager_stale dB 30)) 20))
       \<noteq> builtin_protocol_features manager_stale
   \<and> is_initialized manager_incoherent
   \<and> activation_block_num (last (activated_protocol_features manager_incoherent)) \<le> 120
   \<and> fst (activate_feature manager_incoherent dB 130) = None
   \<and> fst (popped_blocks_to (snd (activate_feature manager_incoherent dB 130)) 120) = None
   \<and> builtin_protocol_features
         (snd (popped_blocks_to (snd (activate_feature manager_incoherent dB 130)) 120))
       \<noteq> builtin_protocol_features manager_incoherent"
  unfolding manager_stale_eq manager_incoherent_eq by (simp add: eval_simps)

section \<open>The catalog\<close>

text \<open>
  Claim C4, as amended. For every builtin feature \<open>f\<close> that \<^verbatim>\<open>add_feature\<close> accepts, the
  set of builtin codes obtained by resolving the dependency digests of \<open>f\<close> through the
  catalog contains the builtin dependencies declared in the spec of \<open>f\<close>. And
  \<^verbatim>\<open>add_feature\<close> rejects with the unsatisfied-builtin-dependencies error every feature
  with a known code that is not yet in the catalog, whose dependency digests are all
  cataloged, and whose resolved set does not contain the declared set (the declared codes
  being codes of the table).
\<close>

theorem add_feature_builtin_dependencies:
  "(add_feature specs digest s f = Inr (res, s') \<and> specs (f_codename f) = Some spec
      \<longrightarrow> fset (builtin_dependencies spec) \<subseteq> resolved_builtins s (f_dependencies f))
   \<and> (specs (f_codename f) = Some spec
       \<and> \<not> (unat (f_codename f) < length (recognized_builtin_protocol_features s)
             \<and> recognized_builtin_protocol_features s ! unat (f_codename f) \<noteq> None)
       \<and> (\<forall>d \<in> set (f_dependencies f). recognized_protocol_features s d \<noteq> None)
       \<and> (\<forall>c \<in> fset (builtin_dependencies spec). specs c \<noteq> None)
       \<and> \<not> fset (builtin_dependencies spec) \<subseteq> resolved_builtins s (f_dependencies f)
      \<longrightarrow> (\<exists>names. add_feature specs digest s f = Inl (builtin_dependencies_not_satisfied names)))"
proof (intro conjI impI)
  assume "add_feature specs digest s f = Inr (res, s') \<and> specs (f_codename f) = Some spec"
  then have ok: "add_feature specs digest s f = Inr (res, s')"
    and spec: "specs (f_codename f) = Some spec" by simp_all
  from ok spec obtain result where
    sat: "satisfied_dependencies (recognized_protocol_features s) (builtin_dependencies spec)
            (f_dependencies f) {||} = Inr result"
    and card: "\<not> fcard (builtin_dependencies spec) > fcard result"
    by (auto simp: add_feature_def Let_def split: if_splits sum.splits)
  from satisfied_dependencies_Inr [OF sat]
  have "fset result = resolved_builtins s (f_dependencies f) \<inter> fset (builtin_dependencies spec)"
    by simp
  from fcard_less_iff_not_subset [OF this] card
  show "fset (builtin_dependencies spec) \<subseteq> resolved_builtins s (f_dependencies f)" by simp
next
  assume a: "specs (f_codename f) = Some spec
       \<and> \<not> (unat (f_codename f) < length (recognized_builtin_protocol_features s)
             \<and> recognized_builtin_protocol_features s ! unat (f_codename f) \<noteq> None)
       \<and> (\<forall>d \<in> set (f_dependencies f). recognized_protocol_features s d \<noteq> None)
       \<and> (\<forall>c \<in> fset (builtin_dependencies spec). specs c \<noteq> None)
       \<and> \<not> fset (builtin_dependencies spec) \<subseteq> resolved_builtins s (f_dependencies f)"
  then have spec: "specs (f_codename f) = Some spec"
    and fresh: "\<not> (unat (f_codename f) < length (recognized_builtin_protocol_features s)
             \<and> recognized_builtin_protocol_features s ! unat (f_codename f) \<noteq> None)"
    and deps: "\<forall>d \<in> set (f_dependencies f). recognized_protocol_features s d \<noteq> None"
    and known: "\<forall>c \<in> fset (builtin_dependencies spec). specs c \<noteq> None"
    and missing: "\<not> fset (builtin_dependencies spec) \<subseteq> resolved_builtins s (f_dependencies f)"
    by simp_all
  from satisfied_dependencies_recognized [OF deps] obtain result where
    sat: "satisfied_dependencies (recognized_protocol_features s) (builtin_dependencies spec)
            (f_dependencies f) {||} = Inr result"
    by blast
  from satisfied_dependencies_Inr [OF sat]
  have "fset result = resolved_builtins s (f_dependencies f) \<inter> fset (builtin_dependencies spec)"
    by simp
  from fcard_less_iff_not_subset [OF this] missing
  have card: "fcard (builtin_dependencies spec) > fcard result" by simp
  have "\<forall>c \<in> set (sorted_list_of_fset (builtin_dependencies spec |-| result)). specs c \<noteq> None"
    using known by simp
  from missing_builtins_with_names_known [OF this] obtain names where
    "missing_builtins_with_names specs
       (sorted_list_of_fset (builtin_dependencies spec |-| result)) = Inr names"
    by blast
  with spec fresh sat card
  have "add_feature specs digest s f = Inl (builtin_dependencies_not_satisfied names)"
    by (auto simp: add_feature_def Let_def)
  then show "\<exists>names. add_feature specs digest s f = Inl (builtin_dependencies_not_satisfied names)" ..
qed

text \<open>
  The amended claim C4 at a concrete input, with the table in which \<open>B\<close> declares the
  dependency \<open>A\<close>: \<open>B\<close> with the digest of \<open>A\<close> among its dependencies is accepted
  and resolves to a superset of the declared set; \<open>B\<close> with no dependency digest is
  rejected.
\<close>

theorem add_feature_builtin_dependencies_witness:
  "fset {|preactivate_feature|} \<subseteq> resolved_builtins catalog_A [dA]
   \<and> (\<exists>names. add_feature codenames_B_needs_A digest_AB catalog_A (builtin_B [])
                = Inl (builtin_dependencies_not_satisfied names))"
proof -
  let ?spec = "\<lparr> codename = ''ONLY_LINK_TO_EXISTING_PERMISSION'',
            s_description_digest = 0xf3c3d91c4603cde2397268bfed4e662465293aab10cd9416db0d442b8cec2949,
            builtin_dependencies = {|preactivate_feature|},
            s_subjective_restrictions =
              \<lparr> r_earliest_allowed_activation_time = 0, r_preactivation_required = True,
                r_enabled = True \<rparr> \<rparr>"
  have spec: "codenames_B_needs_A (f_codename (builtin_B deps)) = Some ?spec" for deps
    by (simp add: builtin_B_fields codenames_lookup)
  have accepted: "add_feature codenames_B_needs_A digest_AB catalog_A (builtin_B [dA])
     = Inr (feature_B \<lparr> dependencies := [dA] \<rparr>,
            \<lparr> recognized_protocol_features =
                [dA \<mapsto> feature_A, dB \<mapsto> feature_B \<lparr> dependencies := [dA] \<rparr>],
              recognized_builtin_protocol_features = [Some dA, Some dB] \<rparr>)"
    unfolding add_feature_def builtin_B_fields codenames_lookup
    by (simp add: Let_def builtin_B_def digest_AB_def catalog_A_def feature_A_def feature_B_def dA_def dB_def
        preactivate_feature_def only_link_to_existing_permission_def)
  have pre: "codenames_B_needs_A (f_codename (builtin_B [])) = Some ?spec
       \<and> \<not> (unat (f_codename (builtin_B [])) < length (recognized_builtin_protocol_features catalog_A)
             \<and> recognized_builtin_protocol_features catalog_A ! unat (f_codename (builtin_B [])) \<noteq> None)
       \<and> (\<forall>d \<in> set (f_dependencies (builtin_B [])). recognized_protocol_features catalog_A d \<noteq> None)
       \<and> (\<forall>c \<in> fset (builtin_dependencies ?spec). codenames_B_needs_A c \<noteq> None)
       \<and> \<not> fset (builtin_dependencies ?spec) \<subseteq> resolved_builtins catalog_A (f_dependencies (builtin_B []))"
    by (simp add: spec builtin_B_fields codenames_lookup resolved_Nil)
      (simp add: catalog_A_def only_link_to_existing_permission_def)
  from add_feature_builtin_dependencies
    [of codenames_B_needs_A digest_AB catalog_A "builtin_B [dA]" _ _ ?spec] accepted spec
  have "fset {|preactivate_feature|} \<subseteq> resolved_builtins catalog_A [dA]"
    by (simp add: builtin_B_fields)
  moreover
  from add_feature_builtin_dependencies
    [of codenames_B_needs_A digest_AB catalog_A "builtin_B []" _ _ ?spec] pre
  have "\<exists>names. add_feature codenames_B_needs_A digest_AB catalog_A (builtin_B [])
                = Inl (builtin_dependencies_not_satisfied names)"
    by blast
  ultimately show ?thesis by (rule conjI)
qed

text \<open>
  Claim C4 as stated ("exactly equals") fails: with the compiled-in table, in which \<open>B\<close>
  declares no builtin dependency, \<^verbatim>\<open>add_feature\<close> accepts \<open>B\<close> with the digest of
  \<open>A\<close> as a dependency. The resolved set is \<open>{A}\<close>, the declared set is empty.
\<close>

theorem add_feature_accepts_undeclared_dependency:
  "add_feature builtin_protocol_feature_codenames digest_AB catalog_A (builtin_B [dA])
     = Inr (feature_B \<lparr> dependencies := [dA] \<rparr>,
            \<lparr> recognized_protocol_features =
                [dA \<mapsto> feature_A, dB \<mapsto> feature_B \<lparr> dependencies := [dA] \<rparr>],
              recognized_builtin_protocol_features = [Some dA, Some dB] \<rparr>)
   \<and> resolved_builtins catalog_A (f_dependencies (builtin_B [dA])) = {preactivate_feature}
   \<and> fset (builtin_dependencies
              (the (builtin_protocol_feature_codenames (f_codename (builtin_B [dA]))))) = {}"
  unfolding builtin_B_fields codenames_lookup
  by (simp add: add_B_to_catalog_A [unfolded builtin_B_fields] resolved_dA)

section \<open>Initialisation\<close>




section \<open>Activation\<close>

text \<open>
  Claim C6, as amended. For an initialized manager and a digest that the catalog recognizes,
  \<^verbatim>\<open>activate_feature(d, n)\<close> throws the non-monotonic-activation error exactly when the
  log is not empty and \<open>n\<close> is strictly less than the activation block number of the last
  entry; when the log is empty or \<open>n\<close> is at least that number, the check passes.
\<close>

theorem activate_feature_monotonicity:
  assumes "is_initialized m"
    and "recognized_protocol_features (pfm_protocol_feature_set m) d = Some itr"
  shows "(fst (activate_feature m d n) = Some non_monotonic_activation)
          = (activated_protocol_features m \<noteq> []
             \<and> n < activation_block_num (last (activated_protocol_features m)))"
  using assms
  by (auto simp: activate_feature_def Let_def not_le split: if_splits option.splits)

text \<open>
  The amended claim C6 at concrete inputs: on the log with \<open>A\<close> at block 100,
  activating \<open>B\<close> at block 99 throws the error and at block 100 it does not; on the empty
  log, block 0 passes.
\<close>

theorem activate_feature_monotonicity_witness:
  "fst (activate_feature manager_A dB 99) = Some non_monotonic_activation
   \<and> fst (activate_feature manager_A dB 100) \<noteq> Some non_monotonic_activation
   \<and> fst (activate_feature manager_AB dB 0) \<noteq> Some non_monotonic_activation"
proof -
  have "is_initialized manager_A" and "is_initialized manager_AB"
    by (simp_all add: manager_A_eq manager_AB_eq is_initialized_def)
  moreover have "recognized_protocol_features (pfm_protocol_feature_set manager_A) dB = Some feature_B"
    and "recognized_protocol_features (pfm_protocol_feature_set manager_AB) dB = Some feature_B"
    by (simp_all add: manager_A_eq manager_AB_eq catalog_AB_lookup)
  ultimately have "(fst (activate_feature manager_A dB 99) = Some non_monotonic_activation)
      = (activated_protocol_features manager_A \<noteq> []
         \<and> 99 < activation_block_num (last (activated_protocol_features manager_A)))"
    and "(fst (activate_feature manager_A dB 100) = Some non_monotonic_activation)
      = (activated_protocol_features manager_A \<noteq> []
         \<and> 100 < activation_block_num (last (activated_protocol_features manager_A)))"
    and "(fst (activate_feature manager_AB dB 0) = Some non_monotonic_activation)
      = (activated_protocol_features manager_AB \<noteq> []
         \<and> 0 < activation_block_num (last (activated_protocol_features manager_AB)))"
    by (simp_all only: activate_feature_monotonicity)
  then show ?thesis by (simp add: manager_A_eq manager_AB_eq)
qed

text \<open>
  Claim C6 as stated fails for a digest that the catalog does not recognize: the lookup
  comes first, so on the log with \<open>A\<close> at block 100 the call at block 99 throws the
  unrecognized-digest error.
\<close>

theorem activate_feature_unrecognized_before_monotonicity:
  "is_initialized manager_A
   \<and> activated_protocol_features manager_A \<noteq> []
   \<and> 99 < activation_block_num (last (activated_protocol_features manager_A))
   \<and> fst (activate_feature manager_A 0xC 99) = Some unrecognized_feature_digest"
  unfolding manager_A_eq by (simp add: eval_simps)




text \<open>
  Claim C10. Whenever \<^verbatim>\<open>activate_feature\<close> throws, the manager is left exactly as it
  was before the call (the entries, the slot vector and the head of the stack included),
  and the exception is one of the six of the function: not initialized, unrecognized
  digest, non-monotonic block number, non-builtin feature, builtin index out of range,
  already activated.
\<close>

theorem activate_feature_failure_atomic:
  "fst (activate_feature m d n) = Some e \<Longrightarrow>
     snd (activate_feature m d n) = m
     \<and> e \<in> {not_yet_initialized, unrecognized_feature_digest, non_monotonic_activation,
             non_builtin_feature, unsupported_builtin_index, already_activated}"
  by (auto simp: activate_feature_def Let_def split: if_splits option.splits)

text \<open>
  Claim C10 at a concrete input: the second activation of \<open>A\<close>.
\<close>

theorem activate_feature_failure_atomic_witness:
  "fst (activate_feature manager_A dA 101) = Some already_activated
   \<and> activated_protocol_features (snd (activate_feature manager_A dA 101))
       = activated_protocol_features manager_A
   \<and> builtin_protocol_features (snd (activate_feature manager_A dA 101))
       = builtin_protocol_features manager_A
   \<and> head_of_builtin_activation_list (snd (activate_feature manager_A dA 101))
       = head_of_builtin_activation_list manager_A"
proof -
  have "fst (activate_feature manager_A dA 101) = Some already_activated"
    unfolding manager_A_eq by (simp add: eval_simps)
  with activate_feature_failure_atomic [of manager_A dA 101 already_activated]
  show ?thesis by simp
qed

section \<open>The cursor\<close>

text \<open>
  Claim C8. For every manager whose log is sorted by activation block number and every block
  number \<open>b\<close>: if some entry has a block number of at least \<open>b\<close>, then
  \<^verbatim>\<open>lower_bound(b)\<close> is the cursor on this manager at the first ordinal with such an
  entry, and otherwise it is the end cursor; \<^verbatim>\<open>upper_bound(b)\<close> likewise, with a block
  number strictly greater than \<open>b\<close>.
\<close>

theorem bounds_on_sorted_log:
  assumes "sorted (map activation_block_num (activated_protocol_features m))"
  shows "(if \<exists>e \<in> set (activated_protocol_features m). b \<le> activation_block_num e
          then it_pfm (lower_bound m b) = Some m
               \<and> it_index (lower_bound m b) < length (activated_protocol_features m)
               \<and> b \<le> activation_block_num (activated_protocol_features m ! it_index (lower_bound m b))
               \<and> (\<forall>j < it_index (lower_bound m b).
                     activation_block_num (activated_protocol_features m ! j) < b)
          else lower_bound m b = cend m)
       \<and> (if \<exists>e \<in> set (activated_protocol_features m). b < activation_block_num e
          then it_pfm (upper_bound m b) = Some m
               \<and> it_index (upper_bound m b) < length (activated_protocol_features m)
               \<and> b < activation_block_num (activated_protocol_features m ! it_index (upper_bound m b))
               \<and> (\<forall>j < it_index (upper_bound m b).
                     activation_block_num (activated_protocol_features m ! j) \<le> b)
          else upper_bound m b = cend m)"
proof -
  let ?es = "activated_protocol_features m"
  have mono: "activation_block_num (?es ! i) \<le> activation_block_num (?es ! j)"
    if "i \<le> j" and "j < length ?es" for i j
  proof -
    from assms that have "map activation_block_num ?es ! i \<le> map activation_block_num ?es ! j"
      by (simp add: sorted_iff_nth_mono)
    with that show ?thesis by simp
  qed
  have lower: "\<forall>i j. i \<le> j \<and> j < length ?es \<and> activation_block_num (?es ! j) < b
      \<longrightarrow> activation_block_num (?es ! i) < b"
    using mono by (meson le_less_trans)
  have upper: "\<forall>i j. i \<le> j \<and> j < length ?es \<and> \<not> b < activation_block_num (?es ! j)
      \<longrightarrow> \<not> b < activation_block_num (?es ! i)"
    using mono by (meson le_less_trans not_less order_trans)
  define lo where "lo = std_bound (\<lambda>lhs. activation_block_num lhs < b) ?es 0 (length ?es)"
  define up where "up = std_bound (\<lambda>rhs. \<not> b < activation_block_num rhs) ?es 0 (length ?es)"
  have lb: "lower_bound m b = (if lo = length ?es then cend m else \<lparr> it_pfm = Some m, it_index = lo \<rparr>)"
    unfolding lower_bound_def Let_def lo_def by (rule refl)
  have ub: "upper_bound m b = (if up = length ?es then cend m else \<lparr> it_pfm = Some m, it_index = up \<rparr>)"
    unfolding upper_bound_def Let_def up_def by (rule refl)
  from std_bound_first [of ?es "\<lambda>lhs. activation_block_num lhs < b", OF lower]
  have lo: "if \<exists>x \<in> set ?es. \<not> activation_block_num x < b
      then lo < length ?es \<and> \<not> activation_block_num (?es ! lo) < b
           \<and> (\<forall>j < lo. activation_block_num (?es ! j) < b)
      else lo = length ?es"
    unfolding lo_def .
  from std_bound_first [of ?es "\<lambda>rhs. \<not> b < activation_block_num rhs", OF upper]
  have up: "if \<exists>x \<in> set ?es. \<not> \<not> b < activation_block_num x
      then up < length ?es \<and> \<not> \<not> b < activation_block_num (?es ! up)
           \<and> (\<forall>j < up. \<not> b < activation_block_num (?es ! j))
      else up = length ?es"
    unfolding up_def .
  have "if \<exists>e \<in> set ?es. b \<le> activation_block_num e
          then it_pfm (lower_bound m b) = Some m
               \<and> it_index (lower_bound m b) < length ?es
               \<and> b \<le> activation_block_num (?es ! it_index (lower_bound m b))
               \<and> (\<forall>j < it_index (lower_bound m b). activation_block_num (?es ! j) < b)
          else lower_bound m b = cend m"
  proof (cases "\<exists>e \<in> set ?es. b \<le> activation_block_num e")
    case True
    with lo have "lo < length ?es" and "b \<le> activation_block_num (?es ! lo)"
      and "\<forall>j < lo. activation_block_num (?es ! j) < b"
      by (auto simp: not_less split: if_splits)
    with True show ?thesis by (simp add: lb)
  next
    case False
    with lo have "lo = length ?es" by (auto simp: not_less split: if_splits)
    with False show ?thesis by (simp add: lb)
  qed
  moreover
  have "if \<exists>e \<in> set ?es. b < activation_block_num e
          then it_pfm (upper_bound m b) = Some m
               \<and> it_index (upper_bound m b) < length ?es
               \<and> b < activation_block_num (?es ! it_index (upper_bound m b))
               \<and> (\<forall>j < it_index (upper_bound m b). activation_block_num (?es ! j) \<le> b)
          else upper_bound m b = cend m"
  proof (cases "\<exists>e \<in> set ?es. b < activation_block_num e")
    case True
    with up have "up < length ?es" and "b < activation_block_num (?es ! up)"
      and "\<forall>j < up. activation_block_num (?es ! j) \<le> b"
      by (auto simp: not_less split: if_splits)
    with True show ?thesis by (simp add: ub)
  next
    case False
    with up have "up = length ?es" by (auto simp: not_less split: if_splits)
    with False show ?thesis by (simp add: ub)
  qed
  ultimately show ?thesis by (rule conjI)
qed

text \<open>
  Claim C8 at concrete inputs, on the log with activations at blocks 100 and 150.
\<close>

theorem bounds_on_sorted_log_witness:
  "lower_bound manager_A_B 150 = \<lparr> it_pfm = Some manager_A_B, it_index = 1 \<rparr>
   \<and> upper_bound manager_A_B 100 = \<lparr> it_pfm = Some manager_A_B, it_index = 1 \<rparr>
   \<and> lower_bound manager_A_B 151 = cend manager_A_B
   \<and> upper_bound manager_A_B 150 = cend manager_A_B"
proof -
  have entries: "activated_protocol_features manager_A_B =
      [\<lparr> iterator_to_protocol_feature = feature_A, activation_block_num = 100 \<rparr>,
       \<lparr> iterator_to_protocol_feature = feature_B, activation_block_num = 150 \<rparr>]"
    by (simp add: manager_A_B_eq)
  have sorted: "sorted (map activation_block_num (activated_protocol_features manager_A_B))"
    by (simp add: entries)
  from bounds_on_sorted_log [OF sorted, of 151]
  have "lower_bound manager_A_B 151 = cend manager_A_B" by (simp add: entries)
  moreover from bounds_on_sorted_log [OF sorted, of 150]
  have "upper_bound manager_A_B 150 = cend manager_A_B" by (simp add: entries)
  moreover have "lower_bound manager_A_B 150 = \<lparr> it_pfm = Some manager_A_B, it_index = 1 \<rparr>"
    by (simp add: lower_bound_def entries std_bound.simps)
  moreover have "upper_bound manager_A_B 100 = \<lparr> it_pfm = Some manager_A_B, it_index = 1 \<rparr>"
    by (simp add: upper_bound_def entries std_bound.simps)
  ultimately show ?thesis by simp
qed

text \<open>
  The checks that the cursor operations other than the dereference make: each throws on a
  singular cursor, and on the end cursor where the source says so.
\<close>

lemma cursor_checks_on_singular:
  "activation_ordinal singular = Inl singular_iterator"
  "it_activation_block_num singular = Inl singular_iterator"
  "increment singular = Inl singular_iterator"
  "decrement singular = Inl singular_iterator"
  by (simp_all add: singular_def activation_ordinal_def it_activation_block_num_def
      increment_def decrement_def)

lemma cursor_checks_on_end:
  "activation_ordinal (cend m) = Inl end_iterator"
  "it_activation_block_num (cend m) = Inl end_iterator"
  "increment (cend m) = Inl end_iterator"
  "activated_protocol_features m = [] \<Longrightarrow> decrement (cend m) = Inl decrement_end_of_empty"
  by (simp_all add: cend_def activation_ordinal_def it_activation_block_num_def
      increment_def decrement_def)

text \<open>
  Claim C9 at the inputs where the source departs from it. Both assertions of
  \<^verbatim>\<open>get_pointer\<close> are commented out, so a dereference throws no exception: on the
  singular cursor it reads through the null pointer, on the end cursor (of an empty or a
  non-empty log) it reads the vector at the reserved end index.
\<close>

theorem get_pointer_unchecked:
  "get_pointer singular = Inl null_pointer_dereference
   \<and> get_pointer (cend manager_AB) = Inl vector_index_out_of_range
   \<and> get_pointer (cend manager_A) = Inl vector_index_out_of_range"
  by (simp add: get_pointer_def singular_def cend_def manager_AB_eq manager_A_eq end_index_def)

end
